theory Spec2Isabelle
  imports Complex_Main
begin

section \<open>JavaScript values\<close>

text \<open>
  The entry points of the loader are called from untyped code, so their arguments are
  arbitrary JavaScript values. \<open>JNaN\<close> is the number that is not a number; objects,
  functions and symbols are represented by an identity.
\<close>

datatype jsval =
    JUndefined
  | JNull
  | JBool bool
  | JNumber real
  | JNaN
  | JBigInt int
  | JString string
  | JSymbol nat
  | JObject nat
  | JFunction nat

text \<open>\<^verbatim>\<open>typeof v\<close>\<close>

fun typeof :: "jsval \<Rightarrow> string" where
  "typeof JUndefined = ''undefined''"
| "typeof JNull = ''object''"
| "typeof (JBool b) = ''boolean''"
| "typeof (JNumber x) = ''number''"
| "typeof JNaN = ''number''"
| "typeof (JBigInt i) = ''bigint''"
| "typeof (JString s) = ''string''"
| "typeof (JSymbol n) = ''symbol''"
| "typeof (JObject n) = ''object''"
| "typeof (JFunction n) = ''function''"

text \<open>The truth value of \<open>v\<close> in a condition; \<^verbatim>\<open>!v\<close> is its negation.\<close>

fun truthy :: "jsval \<Rightarrow> bool" where
  "truthy JUndefined = False"
| "truthy JNull = False"
| "truthy (JBool b) = b"
| "truthy (JNumber x) = (x \<noteq> 0)"
| "truthy JNaN = False"
| "truthy (JBigInt i) = (i \<noteq> 0)"
| "truthy (JString s) = (s \<noteq> [])"
| "truthy (JSymbol n) = True"
| "truthy (JObject n) = True"
| "truthy (JFunction n) = True"

section \<open>JavaScript strings\<close>

text \<open>
  A JavaScript string is a sequence of code units; it is modelled as a \<^typ>\<open>string\<close>.
  Every pattern the loader searches for is ASCII, and the functions below only compare
  code units for equality, so the width of a code unit plays no role.
\<close>

text \<open>\<^verbatim>\<open>s.startsWith(p)\<close>\<close>

definition startsWith :: "string \<Rightarrow> string \<Rightarrow> bool" where
  "startsWith s p = (take (length p) s = p)"

text \<open>\<^verbatim>\<open>s.includes(p)\<close>: \<open>p\<close> occurs at some position of \<open>s\<close>.\<close>

fun str_includes :: "string \<Rightarrow> string \<Rightarrow> bool" where
  "str_includes [] p = (p = [])"
| "str_includes (c # cs) p = (startsWith (c # cs) p \<or> str_includes cs p)"

text \<open>
  \<^verbatim>\<open>s.replace(pat, rep)\<close> with a string pattern: only the first occurrence is replaced.
\<close>

fun replace_first :: "string \<Rightarrow> string \<Rightarrow> string \<Rightarrow> string" where
  "replace_first pat rep [] = (if pat = [] then rep else [])"
| "replace_first pat rep (c # cs) =
     (if startsWith (c # cs) pat then rep @ drop (length pat) (c # cs)
      else c # replace_first pat rep cs)"

text \<open>
  A regular expression without repetition is a finite list of alternatives; at a position
  it matches the first alternative that is a prefix of the remaining text. The result is
  the number of code units matched, \<open>0\<close> for no match (no pattern used here is empty).
\<close>

definition match_at :: "string list \<Rightarrow> string \<Rightarrow> nat" where
  "match_at alts s = (case find (startsWith s) alts of None \<Rightarrow> 0 | Some p \<Rightarrow> length p)"

text \<open>
  \<^verbatim>\<open>s.replace(/re/g, rep)\<close>: the matches are found from left to right, they do not
  overlap, and the text is scanned once (a match created by a replacement is not seen).
\<close>

function replace_all :: "string list \<Rightarrow> string \<Rightarrow> string \<Rightarrow> string" where
  "replace_all alts rep [] = []"
| "replace_all alts rep (c # cs) =
     (case match_at alts (c # cs) of
        0 \<Rightarrow> c # replace_all alts rep cs
      | Suc n \<Rightarrow> rep @ replace_all alts rep (drop n cs))"
  by pat_completeness auto
termination
  by (relation "measure (\<lambda>(alts, rep, s). length s)") auto

text \<open>\<^verbatim>\<open>/&amp;/\<close>, \<^verbatim>\<open>/\?dl=[01]/\<close> and \<^verbatim>\<open>/[?&]dl=[01]/\<close>\<close>

definition re_amp :: "string list" where
  "re_amp = [''&amp;'']"

definition re_q_dl :: "string list" where
  "re_q_dl = [''?dl=0'', ''?dl=1'']"

definition re_qa_dl :: "string list" where
  "re_qa_dl = [''?dl=0'', ''?dl=1'', ''&dl=0'', ''&dl=1'']"

section \<open>The platform's URL objects\<close>

text \<open>
  \<^verbatim>\<open>new URL(s)\<close> and \<^verbatim>\<open>URL.prototype.toString\<close> belong to the browser, not to
  the repository: the parser (\<open>None\<close> when the constructor throws) and the serialiser are
  parameters of the model. The query of a URL object is its list of name/value pairs;
  \<^verbatim>\<open>searchParams.delete\<close> and \<^verbatim>\<open>searchParams.set\<close> act on that list as the
  URL standard describes.
\<close>

record url_obj =
  protocol :: string
  host :: string
  pathname :: string
  searchParams :: "(string \<times> string) list"
  hash :: string

record url_api =
  url_parse :: "string \<Rightarrow> url_obj option"
  url_toString :: "url_obj \<Rightarrow> string"

definition sp_delete :: "string \<Rightarrow> (string \<times> string) list \<Rightarrow> (string \<times> string) list" where
  "sp_delete n ps = filter (\<lambda>kv. fst kv \<noteq> n) ps"

text \<open>
  \<^verbatim>\<open>set(n, v)\<close>: the first pair named \<open>n\<close> takes the value \<open>v\<close> and the other pairs
  named \<open>n\<close> are removed; without such a pair, \<open>(n, v)\<close> is appended.
\<close>

fun sp_set_first :: "string \<Rightarrow> string \<Rightarrow> (string \<times> string) list \<Rightarrow> (string \<times> string) list" where
  "sp_set_first n v [] = []"
| "sp_set_first n v (kv # ps) =
     (if fst kv = n then (n, v) # sp_delete n ps else kv # sp_set_first n v ps)"

definition sp_set :: "string \<Rightarrow> string \<Rightarrow> (string \<times> string) list \<Rightarrow> (string \<times> string) list" where
  "sp_set n v ps = (if n \<in> fst ` set ps then sp_set_first n v ps else ps @ [(n, v)])"

subsection \<open>A sample platform\<close>

text \<open>
  To run the model on examples, a small stand-in for the browser's URL class: it accepts
  \<^verbatim>\<open>http://\<close> and \<^verbatim>\<open>https://\<close> URLs with a non-empty host, splits the query
  at \<^verbatim>\<open>&\<close> and \<^verbatim>\<open>=\<close>, and does no percent-encoding. The theorems below hold
  for every platform; this one only supplies concrete inputs.
\<close>

fun split_on :: "char \<Rightarrow> string \<Rightarrow> string list" where
  "split_on c [] = [[]]"
| "split_on c (x # xs) =
     (if x = c then [] # split_on c xs
      else (case split_on c xs of [] \<Rightarrow> [[x]] | w # ws \<Rightarrow> (x # w) # ws))"

definition parse_pair :: "string \<Rightarrow> string \<times> string" where
  "parse_pair s = (takeWhile (\<lambda>c. c \<noteq> CHR ''='') s, drop 1 (dropWhile (\<lambda>c. c \<noteq> CHR ''='') s))"

definition parse_query :: "string \<Rightarrow> (string \<times> string) list" where
  "parse_query q = map parse_pair (filter (\<lambda>w. w \<noteq> []) (split_on CHR ''&'' q))"

fun join_query :: "(string \<times> string) list \<Rightarrow> string" where
  "join_query [] = []"
| "join_query [kv] = fst kv @ ''='' @ snd kv"
| "join_query (kv # ps) = fst kv @ ''='' @ snd kv @ ''&'' @ join_query ps"

definition sample_parse :: "string \<Rightarrow> url_obj option" where
  "sample_parse s =
     (let scheme = (if startsWith s ''https://'' then ''https:''
                    else if startsWith s ''http://'' then ''http:'' else []);
          rest = drop (length scheme + 2) s;
          h = takeWhile (\<lambda>c. c \<notin> {CHR ''/'', CHR ''?'', CHR ''#''}) rest;
          r1 = dropWhile (\<lambda>c. c \<notin> {CHR ''/'', CHR ''?'', CHR ''#''}) rest;
          p = takeWhile (\<lambda>c. c \<notin> {CHR ''?'', CHR ''#''}) r1;
          r2 = dropWhile (\<lambda>c. c \<notin> {CHR ''?'', CHR ''#''}) r1;
          q = (if startsWith r2 ''?'' then takeWhile (\<lambda>c. c \<noteq> CHR ''#'') (drop 1 r2) else []);
          f = dropWhile (\<lambda>c. c \<noteq> CHR ''#'') r2
      in if scheme = [] \<or> h = [] then None
         else Some \<lparr>protocol = scheme, host = h, pathname = (if p = [] then ''/'' else p),
                    searchParams = parse_query q, hash = f\<rparr>)"

definition sample_toString :: "url_obj \<Rightarrow> string" where
  "sample_toString u =
     protocol u @ ''//'' @ host u @ pathname u
       @ (if searchParams u = [] then [] else ''?'' @ join_query (searchParams u)) @ hash u"

definition sample_api :: url_api where
  "sample_api = \<lparr>url_parse = sample_parse, url_toString = sample_toString\<rparr>"

section \<open>URL normalizer\<close>

definition DIRECT_HOST :: string where
  "DIRECT_HOST = ''dl.dropboxusercontent.com''"

definition WWW_HOST :: string where
  "WWW_HOST = ''www.dropbox.com''"

definition SCL_MARK :: string where
  "SCL_MARK = ''dropbox.com/scl/''"

definition S_MARK :: string where
  "S_MARK = ''dropbox.com/s/''"

text \<open>The body of \<^verbatim>\<open>convertDropboxUrl\<close> once the argument is known to be a non-empty string.\<close>

definition convert_string :: "url_api \<Rightarrow> string \<Rightarrow> string" where
  "convert_string api url0 =
     (let url = replace_all re_amp ''&'' url0 in
      if str_includes url DIRECT_HOST then url
      else if str_includes url SCL_MARK then
        (case url_parse api url of
           Some urlObj \<Rightarrow>
             url_toString api
               (urlObj\<lparr>searchParams := sp_set ''raw'' ''1'' (sp_delete ''dl'' (searchParams urlObj))\<rparr>)
         | None \<Rightarrow>
             (let url1 = replace_all re_qa_dl [] url in
              if \<not> str_includes url1 ''raw=1''
              then url1 @ (if str_includes url1 ''?'' then ''&'' else ''?'') @ ''raw=1''
              else url1))
      else if str_includes url S_MARK then
        replace_all re_q_dl [] (replace_first WWW_HOST DIRECT_HOST url)
      else url)"

text \<open>
  \<^verbatim>\<open>convertDropboxUrl(url)\<close>: the guard \<^verbatim>\<open>if (!url || typeof url !== 'string') return url\<close>
  precedes every string operation.
\<close>

definition convertDropboxUrl :: "url_api \<Rightarrow> jsval \<Rightarrow> jsval" where
  "convertDropboxUrl api url =
     (if \<not> truthy url \<or> typeof url \<noteq> ''string'' then url
      else (case url of JString s \<Rightarrow> JString (convert_string api s) | _ \<Rightarrow> url))"

subsection \<open>Image sources inside HTML\<close>

text \<open>
  The expression \<^verbatim>\<open>/src=["']([^"']*(?:dropbox\.com|dropboxusercontent\.com)[^"']*)["']/gi\<close>
  ignores the case of ASCII letters. After \<^verbatim>\<open>src=\<close> and a quote, the group and its two
  starred classes consist of characters that are not quotes and the group must be followed
  by a quote, so the group is the whole run of characters up to the next quote, and the
  expression matches when that quote exists and the run names one of the two domains.
\<close>

definition to_lower :: "char \<Rightarrow> char" where
  "to_lower c = (let n = (of_char c :: nat) in if 65 \<le> n \<and> n \<le> 90 then char_of (n + 32) else c)"

definition is_quote :: "char \<Rightarrow> bool" where
  "is_quote c = (c = CHR 0x22 \<or> c = CHR 0x27)"

text \<open>The captured group when the expression matches at the start of \<open>s\<close>.\<close>

definition src_match :: "string \<Rightarrow> string option" where
  "src_match s =
     (if map to_lower (take 4 s) = ''src='' then
        (case drop 4 s of
           [] \<Rightarrow> None
         | q # r \<Rightarrow>
             if is_quote q then
               (let run = takeWhile (\<lambda>c. \<not> is_quote c) r in
                if dropWhile (\<lambda>c. \<not> is_quote c) r \<noteq> [] \<and>
                   (str_includes (map to_lower run) ''dropbox.com'' \<or>
                    str_includes (map to_lower run) ''dropboxusercontent.com'')
                then Some run else None)
             else None)
      else None)"

text \<open>
  The global replacement: a match of \<^verbatim>\<open>src=\<close>, quote, run, quote (\<open>6 + length run\<close>
  code units) is replaced by \<^verbatim>\<open>src="${convertDropboxUrl(url)}"\<close>.
\<close>

function replace_src :: "url_api \<Rightarrow> string \<Rightarrow> string" where
  "replace_src api [] = []"
| "replace_src api (c # cs) =
     (case src_match (c # cs) of
        None \<Rightarrow> c # replace_src api cs
      | Some run \<Rightarrow>
          ''src='' @ [CHR 0x22] @ convert_string api run @ [CHR 0x22]
            @ replace_src api (drop (5 + length run) cs))"
  by pat_completeness auto
termination
  by (relation "measure (\<lambda>(api, s). length s)") auto

definition normalizeImageUrls :: "url_api \<Rightarrow> jsval \<Rightarrow> jsval" where
  "normalizeImageUrls api html =
     (if \<not> truthy html \<or> typeof html \<noteq> ''string'' then html
      else (case html of
              JString s \<Rightarrow> JString (replace_src api (replace_all re_amp ''&'' s))
            | _ \<Rightarrow> html))"

section \<open>Configuration\<close>

text \<open>The entries of \<^verbatim>\<open>CONFIG\<close> that the loader reads; times are in milliseconds.\<close>

definition MAX_RETRIES :: nat where
  "MAX_RETRIES = 3"

definition BASE_RETRY_DELAY :: real where
  "BASE_RETRY_DELAY = 1000"

definition MAX_RETRY_DELAY :: real where
  "MAX_RETRY_DELAY = 10000"



definition MEMORY_CACHE_MAX :: nat where
  "MEMORY_CACHE_MAX = 50"

definition CACHE_DURATION :: int where
  "CACHE_DURATION = 7 * 24 * 60 * 60 * 1000"

section \<open>Retry delay\<close>

text \<open>
  \<^verbatim>\<open>getRetryDelay(attempt)\<close>. The value of \<^verbatim>\<open>Math.random()\<close>, a number in
  \<open>[0, 1)\<close>, is the argument \<open>rnd\<close>. The function is private; its callers are the
  retry branches of the two loaders, which pass an attempt number below \<^verbatim>\<open>MAX_RETRIES\<close>.
  For these attempts \<open>BASE_RETRY_DELAY * 2 ^ attempt\<close> is an integer that a double holds
  exactly, and the delay is computed here in the real numbers, where the products and the sum
  of the source are exact instead of rounded to the nearest double (a relative difference of
  at most \<open>2 ^ - 52\<close> per operation, far below the millisecond a timer resolves).
\<close>

definition getRetryDelay :: "real \<Rightarrow> nat \<Rightarrow> real" where
  "getRetryDelay rnd attempt =
     (let exponentialDelay = BASE_RETRY_DELAY * 2 ^ attempt;
          jitter = rnd * 0.3 * exponentialDelay
      in min (exponentialDelay + jitter) MAX_RETRY_DELAY)"

section \<open>Insertion-ordered maps\<close>

text \<open>
  A JavaScript \<^verbatim>\<open>Map\<close> iterates its keys in insertion order, and the memory cache
  relies on that order. A map is the list of its entries, oldest first;
  \<^verbatim>\<open>set\<close> on a key already present keeps the position of the entry.
\<close>

type_synonym ('k, 'v) js_map = "('k \<times> 'v) list"

definition map_has :: "('k, 'v) js_map \<Rightarrow> 'k \<Rightarrow> bool" where
  "map_has m k = (k \<in> set (map fst m))"

definition map_get :: "('k, 'v) js_map \<Rightarrow> 'k \<Rightarrow> 'v option" where
  "map_get m k = map_of m k"

definition map_delete :: "'k \<Rightarrow> ('k, 'v) js_map \<Rightarrow> ('k, 'v) js_map" where
  "map_delete k m = filter (\<lambda>kv. fst kv \<noteq> k) m"

fun map_set :: "'k \<Rightarrow> 'v \<Rightarrow> ('k, 'v) js_map \<Rightarrow> ('k, 'v) js_map" where
  "map_set k v [] = [(k, v)]"
| "map_set k v (e # m) = (if fst e = k then (k, v) # m else e # map_set k v m)"

section \<open>Memory cache\<close>

text \<open>
  The cache maps a URL to an object URL (a handle on decoded data). Each call of
  \<^verbatim>\<open>URL.revokeObjectURL\<close> and each insertion is appended to a log, so that the
  order of the two effects can be stated.
\<close>

datatype ('k, 'h) cache_effect = Revoked 'h | Inserted 'k 'h

record ('k, 'h) mem =
  memoryCache :: "('k, 'h) js_map"
  effects :: "('k, 'h) cache_effect list"

text \<open>\<^verbatim>\<open>getFromMemoryCache(url)\<close>; \<open>None\<close> is \<^verbatim>\<open>null\<close>.\<close>

definition getFromMemoryCache :: "'k \<Rightarrow> ('k, 'h) mem \<Rightarrow> 'h option \<times> ('k, 'h) mem" where
  "getFromMemoryCache url s =
     (if map_has (memoryCache s) url then
        (case map_get (memoryCache s) url of
           Some v \<Rightarrow> (Some v, s\<lparr>memoryCache := map_set url v (map_delete url (memoryCache s))\<rparr>)
         | None \<Rightarrow> (None, s))
      else (None, s))"

text \<open>
  The loop of \<^verbatim>\<open>storeInMemoryCache\<close>: while the cache holds at least
  \<^verbatim>\<open>MEMORY_CACHE_MAX\<close> entries, the first key of the iteration order is revoked and
  deleted. The bound is positive, so the cache is not empty inside the loop.
\<close>

function evict_oldest :: "('k, 'h) mem \<Rightarrow> ('k, 'h) mem" where
  "evict_oldest s =
     (if length (memoryCache s) \<ge> MEMORY_CACHE_MAX then
        (case memoryCache s of
           [] \<Rightarrow> s
         | (oldestKey, oldestUrl) # rest \<Rightarrow>
             evict_oldest (s\<lparr>memoryCache := map_delete oldestKey (memoryCache s),
                              effects := effects s @ [Revoked oldestUrl]\<rparr>))
      else s)"
  by pat_completeness auto
termination
  by (relation "measure (\<lambda>s. length (memoryCache s))")
     (auto simp: map_delete_def less_Suc_eq_le)

definition storeInMemoryCache :: "'k \<Rightarrow> 'h \<Rightarrow> ('k, 'h) mem \<Rightarrow> ('k, 'h) mem" where
  "storeInMemoryCache url objectUrl s =
     (let s1 = evict_oldest s
      in s1\<lparr>memoryCache := map_set url objectUrl (memoryCache s1),
            effects := effects s1 @ [Inserted url objectUrl]\<rparr>)"

text \<open>A sequence of cache operations, as issued by the loader.\<close>

datatype ('k, 'h) cache_op = Get 'k | Put 'k 'h

fun apply_cache_op :: "('k, 'h) cache_op \<Rightarrow> ('k, 'h) mem \<Rightarrow> ('k, 'h) mem" where
  "apply_cache_op (Get k) s = snd (getFromMemoryCache k s)"
| "apply_cache_op (Put k h) s = storeInMemoryCache k h s"

definition run_cache_ops :: "('k, 'h) cache_op list \<Rightarrow> ('k, 'h) mem \<Rightarrow> ('k, 'h) mem" where
  "run_cache_ops ops s = fold apply_cache_op ops s"

definition empty_mem :: "('k, 'h) mem" where
  "empty_mem = \<lparr>memoryCache = [], effects = []\<rparr>"

text \<open>A full cache, used to evaluate the operations.\<close>

definition full_mem :: "(nat, nat) mem" where
  "full_mem = \<lparr>memoryCache = (0, 100) # map (\<lambda>i. (i, 100 + i)) [1..<50], effects = []\<rparr>"

declare evict_oldest.simps [simp del]

section \<open>The loader's state\<close>

text \<open>
  The script runs on one thread. Between two suspension points (an awaited store read, an
  awaited fetch, a timer) its code runs to completion, so the loader is a state machine
  whose steps are the calls of \<^verbatim>\<open>loadImage\<close> and the completions of the operations it
  awaits. Promise reactions run in microtasks, before the next completion is delivered;
  a settlement and the settlements that follow from it are one step here.
\<close>

type_synonym handle = nat
type_synonym blob = nat

datatype load_error =
    FetchFailed string
  | HttpStatus nat
  | NotAnImage
  | BodyFailed string

datatype settled = Pending | Fulfilled handle | Rejected load_error

text \<open>The operation the executor of a promise is waiting for.\<close>

datatype stage =
    Idle
  | AwaitStore bool
  | AwaitFetch
  | AwaitTimer real

text \<open>
  A promise created by \<^verbatim>\<open>loadImage(url, attempt)\<close>. \<open>reactions\<close> lists the promises
  whose \<^verbatim>\<open>resolve\<close> and \<^verbatim>\<open>reject\<close> were attached with
  \<^verbatim>\<open>.then(resolve).catch(reject)\<close>: they settle as this one does.
\<close>

record promise =
  status :: settled
  reactions :: "nat list"
  p_url :: string
  p_key :: string
  p_attempt :: nat
  stage :: stage

record failure =
  attempts :: nat
  lastAttempt :: int
  error :: load_error

text \<open>
  \<^verbatim>\<open>state\<close>, together with what the platform holds for it: the promises (a promise is
  its index), the blobs behind the object URLs (an object URL is its index), the records of
  the \<^verbatim>\<open>images\<close> object store, and the log of the fetches issued. \<open>db\<close> tells whether
  \<^verbatim>\<open>state.db\<close> is set.
\<close>

record loader =
  mem :: "(string, handle) mem"
  loading :: "(string, nat) js_map"
  failed :: "(string, failure) js_map"
  db :: bool
  store :: "(string, blob \<times> int) js_map"
  promises :: "promise list"
  objectUrls :: "blob list"
  fetches :: "string list"

definition init_loader :: loader where
  "init_loader = \<lparr>mem = empty_mem, loading = [], failed = [], db = False, store = [],
                   promises = [], objectUrls = [], fetches = []\<rparr>"

subsection \<open>Promises\<close>

text \<open>
  Settling the promises of a work list with the outcome \<open>out\<close>: a pending promise takes
  the outcome and its reactions join the work list; a settled promise ignores the call, as
  \<^verbatim>\<open>resolve\<close> and \<^verbatim>\<open>reject\<close> do.
\<close>

function settle :: "nat list \<Rightarrow> settled \<Rightarrow> promise list \<Rightarrow> promise list" where
  "settle [] out ps = ps"
| "settle (p # work) out ps =
     (if p < length ps \<and> status (ps ! p) = Pending \<and> out \<noteq> Pending
      then settle (work @ reactions (ps ! p)) out (ps[p := (ps ! p)\<lparr>status := out\<rparr>])
      else settle work out ps)"
  by pat_completeness auto
termination
proof (relation "measures [\<lambda>(work, out, ps). length (filter (\<lambda>r. status r = Pending) ps),
                           \<lambda>(work, out, ps). length work]", goal_cases)
  case 1
  then show ?case by simp
next
  case (2 p work out ps)
  have "length (filter (\<lambda>r. status r = Pending) (qs[i := (qs ! i)\<lparr>status := out\<rparr>]))
        < length (filter (\<lambda>r. status r = Pending) qs)"
    if "i < length qs" "status (qs ! i) = Pending" "out \<noteq> Pending" for qs :: "promise list" and i
    using that
  proof (induction qs arbitrary: i)
    case Nil
    then show ?case by simp
  next
    case (Cons q qs)
    then show ?case by (cases i) auto
  qed
  with 2 show ?case by simp
next
  case (3 p work out ps)
  then show ?case by auto
qed

text \<open>\<^verbatim>\<open>child.then(resolve).catch(reject)\<close> with the functions of the promise \<open>parent\<close>.\<close>

definition chain :: "nat \<Rightarrow> nat \<Rightarrow> promise list \<Rightarrow> promise list" where
  "chain child parent ps =
     (if child < length ps then
        (case status (ps ! child) of
           Pending \<Rightarrow> ps[child := (ps ! child)\<lparr>reactions := reactions (ps ! child) @ [parent]\<rparr>]
         | out \<Rightarrow> settle [parent] out ps)
      else ps)"



section \<open>Persistent store\<close>

text \<open>
  What the platform answers is not decided by the script; it is an argument of the step
  that delivers the answer.
\<close>

datatype open_outcome = NoIndexedDB | OpenThrows | OpenError | OpenSuccess

datatype init_result = ResolvedNull | ResolvedDb | RejectedInit

text \<open>
  \<^verbatim>\<open>initIndexedDB()\<close>: the value the promise settles with, and the state. The
  outcomes are the absence of \<^verbatim>\<open>indexedDB\<close> in \<^verbatim>\<open>window\<close>, an exception thrown by
  \<^verbatim>\<open>indexedDB.open\<close> itself, and the two events of the open request. The function never
  calls \<^verbatim>\<open>reject\<close>, but the call of \<^verbatim>\<open>open\<close> stands in the executor of the promise
  outside any \<^verbatim>\<open>try\<close> block, so an exception it throws rejects the promise.
\<close>

fun initIndexedDB :: "open_outcome \<Rightarrow> loader \<Rightarrow> init_result \<times> loader" where
  "initIndexedDB NoIndexedDB s = (ResolvedNull, s)"
| "initIndexedDB OpenThrows s = (RejectedInit, s)"
| "initIndexedDB OpenError s = (ResolvedNull, s)"
| "initIndexedDB OpenSuccess s = (ResolvedDb, s\<lparr>db := True\<rparr>)"

text \<open>
  The answer to a read: \<^verbatim>\<open>transaction\<close> or \<^verbatim>\<open>get\<close> throws, the request fails, or
  it succeeds, \<^verbatim>\<open>Date.now()\<close> being \<open>now\<close> when the success handler runs.
\<close>

datatype read_outcome = ReadThrows | ReadError | ReadSuccess int

text \<open>
  \<^verbatim>\<open>getFromIndexedDB(url)\<close>; \<open>db_set\<close> is \<^verbatim>\<open>state.db\<close> at the call, \<open>None\<close> is
  \<^verbatim>\<open>null\<close>.
\<close>

definition getFromIndexedDB :: "bool \<Rightarrow> string \<Rightarrow> read_outcome \<Rightarrow> loader \<Rightarrow> blob option" where
  "getFromIndexedDB db_set url outcome s =
     (if \<not> db_set then None
      else (case outcome of
              ReadThrows \<Rightarrow> None
            | ReadError \<Rightarrow> None
            | ReadSuccess now \<Rightarrow>
                (case map_get (store s) url of
                   None \<Rightarrow> None
                 | Some (b, timestamp) \<Rightarrow>
                     if now - timestamp < CACHE_DURATION then Some b else None)))"

text \<open>
  \<^verbatim>\<open>storeInIndexedDB(url, blob)\<close>; \<open>ok\<close> is false when the platform throws or
  drops the write. The record replaces the one stored under the same key.
\<close>

definition storeInIndexedDB :: "string \<Rightarrow> blob \<Rightarrow> int \<Rightarrow> bool \<Rightarrow> loader \<Rightarrow> loader" where
  "storeInIndexedDB url b now ok s =
     (if \<not> db s then s
      else if ok then s\<lparr>store := map_set url (b, now) (store s)\<rparr>
      else s)"

text \<open>
  \<^verbatim>\<open>cleanupIndexedDB()\<close>: the cursor over \<^verbatim>\<open>IDBKeyRange.upperBound(cutoff)\<close> deletes
  the records whose timestamp is at most the cutoff.
\<close>

definition cleanupIndexedDB :: "int \<Rightarrow> bool \<Rightarrow> loader \<Rightarrow> loader" where
  "cleanupIndexedDB now ok s =
     (if \<not> db s then s
      else if ok then
        s\<lparr>store := filter (\<lambda>e. \<not> snd (snd e) \<le> now - CACHE_DURATION) (store s)\<rparr>
      else s)"

section \<open>Load coordinator\<close>

text \<open>
  The synchronous part of \<^verbatim>\<open>loadImage(url, attempt)\<close>: the promise returned and the
  new state. When neither the in-flight map nor the memory cache has the key, the executor
  of the new promise runs up to its first \<^verbatim>\<open>await\<close>, where \<^verbatim>\<open>getFromIndexedDB\<close>
  has read \<^verbatim>\<open>state.db\<close>, and the promise is entered in the in-flight map. The URL is
  a string, as every caller of the loader passes one; an object URL is a non-empty string,
  so the test \<^verbatim>\<open>if (cached)\<close> succeeds exactly on a cache hit.
\<close>

definition loadImage :: "url_api \<Rightarrow> string \<Rightarrow> nat \<Rightarrow> loader \<Rightarrow> nat \<times> loader" where
  "loadImage api url attempt s =
     (let fixedUrl = convert_string api url in
      case map_get (loading s) fixedUrl of
        Some p \<Rightarrow> (p, s)
      | None \<Rightarrow>
          (case getFromMemoryCache fixedUrl (mem s) of
             (Some cached, m) \<Rightarrow>
               (length (promises s),
                s\<lparr>mem := m,
                  promises := promises s @
                    [\<lparr>status = Fulfilled cached, reactions = [], p_url = url, p_key = fixedUrl,
                      p_attempt = attempt, stage = Idle\<rparr>]\<rparr>)
           | (None, m) \<Rightarrow>
               (length (promises s),
                s\<lparr>mem := m,
                  promises := promises s @
                    [\<lparr>status = Pending, reactions = [], p_url = url, p_key = fixedUrl,
                      p_attempt = attempt, stage = AwaitStore (db s)\<rparr>],
                  loading := map_set fixedUrl (length (promises s)) (loading s)\<rparr>)))"

definition set_stage :: "nat \<Rightarrow> stage \<Rightarrow> promise list \<Rightarrow> promise list" where
  "set_stage p st ps = ps[p := (ps ! p)\<lparr>stage := st\<rparr>]"

text \<open>\<^verbatim>\<open>URL.createObjectURL(blob)\<close> followed by \<^verbatim>\<open>storeInMemoryCache(fixedUrl, objectUrl)\<close>.\<close>

definition cache_blob :: "string \<Rightarrow> blob \<Rightarrow> loader \<Rightarrow> handle \<times> loader" where
  "cache_blob fixedUrl b s =
     (let objectUrl = length (objectUrls s)
      in (objectUrl,
          s\<lparr>objectUrls := objectUrls s @ [b],
            mem := storeInMemoryCache fixedUrl objectUrl (mem s)\<rparr>))"

text \<open>
  The executor resumes after \<^verbatim>\<open>await getFromIndexedDB(fixedUrl)\<close>: on a hit the blob
  is cached and the promise fulfilled; on a miss the fetch is issued.
\<close>

definition on_store_read :: "nat \<Rightarrow> read_outcome \<Rightarrow> loader \<Rightarrow> loader" where
  "on_store_read p outcome s =
     (if p < length (promises s) then
        (case stage (promises s ! p) of
           AwaitStore db_set \<Rightarrow>
             (let fixedUrl = p_key (promises s ! p) in
              case getFromIndexedDB db_set fixedUrl outcome s of
                Some cachedBlob \<Rightarrow>
                  (let (objectUrl, s1) = cache_blob fixedUrl cachedBlob s
                   in s1\<lparr>loading := map_delete fixedUrl (loading s1),
                         promises := settle [p] (Fulfilled objectUrl)
                                       (set_stage p Idle (promises s1))\<rparr>)
              | None \<Rightarrow>
                  s\<lparr>promises := set_stage p AwaitFetch (promises s),
                    fetches := fetches s @ [fixedUrl]\<rparr>)
         | _ \<Rightarrow> s)
      else s)"

text \<open>
  What a fetch ends with: the promise of \<^verbatim>\<open>fetch\<close> rejects (network error, or the
  abort after \<^verbatim>\<open>LOAD_TIMEOUT\<close>), or a response arrives with a status and a body that
  \<^verbatim>\<open>response.blob()\<close> reads or fails to read.
\<close>

datatype body = BlobFails string | BlobOf blob string

datatype fetch_outcome = FetchRejects string | Response nat body

text \<open>The \<^verbatim>\<open>try\<close> block up to the type check: the blob, or the error thrown.\<close>

definition response_blob :: "fetch_outcome \<Rightarrow> load_error + blob" where
  "response_blob outcome =
     (case outcome of
        FetchRejects msg \<Rightarrow> Inl (FetchFailed msg)
      | Response st b \<Rightarrow>
          if \<not> (200 \<le> st \<and> st \<le> 299) then Inl (HttpStatus st)
          else (case b of
                  BlobFails msg \<Rightarrow> Inl (BodyFailed msg)
                | BlobOf bl ty \<Rightarrow>
                    if \<not> startsWith ty ''image/'' then Inl NotAnImage else Inr bl))"

text \<open>
  What the platform supplies when the fetch completes: the value of \<^verbatim>\<open>Math.random()\<close>,
  the value of \<^verbatim>\<open>Date.now()\<close>, and whether a write to the store goes through.
\<close>

record env =
  rnd :: real
  now :: int
  write_ok :: bool

text \<open>The executor resumes after the fetch: the rest of the \<^verbatim>\<open>try\<close> block, or the \<^verbatim>\<open>catch\<close> block.\<close>

definition on_fetch_done :: "nat \<Rightarrow> fetch_outcome \<Rightarrow> env \<Rightarrow> loader \<Rightarrow> loader" where
  "on_fetch_done p outcome e s =
     (if p < length (promises s) then
        (case stage (promises s ! p) of
           AwaitFetch \<Rightarrow>
             (let fixedUrl = p_key (promises s ! p);
                  attempt = p_attempt (promises s ! p) in
              case response_blob outcome of
                Inr b \<Rightarrow>
                  (let s0 = storeInIndexedDB fixedUrl b (now e) (write_ok e) s;
                       (objectUrl, s1) = cache_blob fixedUrl b s0
                   in s1\<lparr>failed := map_delete fixedUrl (failed s1),
                         loading := map_delete fixedUrl (loading s1),
                         promises := settle [p] (Fulfilled objectUrl)
                                       (set_stage p Idle (promises s1))\<rparr>)
              | Inl err \<Rightarrow>
                  if attempt < MAX_RETRIES then
                    s\<lparr>loading := map_delete fixedUrl (loading s),
                      promises := set_stage p (AwaitTimer (getRetryDelay (rnd e) attempt))
                                    (promises s)\<rparr>
                  else
                    s\<lparr>failed := map_set fixedUrl
                                  \<lparr>attempts = attempt + 1, lastAttempt = now e, error = err\<rparr>
                                  (failed s),
                      loading := map_delete fixedUrl (loading s),
                      promises := settle [p] (Rejected err) (set_stage p Idle (promises s))\<rparr>)
         | _ \<Rightarrow> s)
      else s)"

text \<open>
  The retry timer fires:
  \<^verbatim>\<open>loadImage(url, attempt + 1).then(resolve).catch(reject)\<close>.
\<close>

definition on_timer :: "url_api \<Rightarrow> nat \<Rightarrow> loader \<Rightarrow> loader" where
  "on_timer api p s =
     (if p < length (promises s) then
        (case stage (promises s ! p) of
           AwaitTimer delay \<Rightarrow>
             (let url = p_url (promises s ! p);
                  attempt = p_attempt (promises s ! p);
                  (child, s1) = loadImage api url (attempt + 1)
                                  (s\<lparr>promises := set_stage p Idle (promises s)\<rparr>)
              in s1\<lparr>promises := chain child p (promises s1)\<rparr>)
         | _ \<Rightarrow> s)
      else s)"

text \<open>
  \<^verbatim>\<open>retryImage(img)\<close> for an image that \<^verbatim>\<open>enhanceImageElement\<close> has set up:
  \<open>url\<close> is \<^verbatim>\<open>img.dataset.originalSrc\<close>, and \<^verbatim>\<open>img._doLoad()\<close> calls
  \<^verbatim>\<open>loadImage\<close> with it.
\<close>

definition retryImage :: "url_api \<Rightarrow> string \<Rightarrow> loader \<Rightarrow> loader" where
  "retryImage api url s = snd (loadImage api url 0 (s\<lparr>failed := map_delete url (failed s)\<rparr>))"

text \<open>
  \<^verbatim>\<open>clearCache()\<close>: every cached object URL is revoked, in the order of the map, and the
  three maps are emptied, whatever the loader is doing. When \<^verbatim>\<open>state.db\<close> is set the
  object store is cleared as well; \<open>ok\<close> is false when \<^verbatim>\<open>state.db.transaction\<close> throws,
  which ends the function there. The boolean returned tells whether the function returned
  normally.
\<close>

definition clearCache :: "bool \<Rightarrow> loader \<Rightarrow> bool \<times> loader" where
  "clearCache ok s =
     (let s1 = s\<lparr>mem := \<lparr>memoryCache = [],
                           effects = effects (mem s)
                                       @ map (\<lambda>kv. Revoked (snd kv)) (memoryCache (mem s))\<rparr>,
                  loading := [],
                  failed := []\<rparr>
      in if db s then (if ok then (True, s1\<lparr>store := []\<rparr>) else (False, s1))
         else (True, s1))"

section \<open>Prefetcher\<close>







text \<open>
  \<^verbatim>\<open>prefetchBatch(batch)\<close>: one \<^verbatim>\<open>loadImage(url).catch(() => {})\<close> per URL. The
  promises are returned with the state; the caller of \<^verbatim>\<open>prefetchImages\<close> never sees
  them. (The \<^verbatim>\<open>link\<close> elements appended to the document are left out.)
\<close>

fun prefetchBatch :: "url_api \<Rightarrow> string list \<Rightarrow> loader \<Rightarrow> nat list \<times> loader" where
  "prefetchBatch api [] s = ([], s)"
| "prefetchBatch api (url # batch) s =
     (let (p, s1) = loadImage api url 0 s;
          (ps, s2) = prefetchBatch api batch s1
      in (p # ps, s2))"


section \<open>Runs of the loader\<close>

text \<open>
  What can happen to the loader: a call of an exported function that touches
  \<^verbatim>\<open>state\<close> (\<^verbatim>\<open>loadImage\<close>, with the attempt number the caller passes or its default
  0; a batch of the prefetcher; \<^verbatim>\<open>retry\<close>; \<^verbatim>\<open>clearCache\<close>; the steps of \<^verbatim>\<open>init\<close>),
  or the completion of an operation a promise awaits. The other exported loader,
  \<^verbatim>\<open>loadImageElement\<close>, keeps promises of its own and touches \<^verbatim>\<open>state\<close> in
  \<^verbatim>\<open>state.failed\<close> only; it is not among the events.
\<close>

datatype event =
    Load string
  | LoadAt string nat
  | StoreRead nat read_outcome
  | FetchDone nat fetch_outcome env
  | TimerFired nat
  | InitDone open_outcome
  | Cleanup int bool
  | Batch "string list"
  | Retry string
  | ClearCache bool

fun step :: "url_api \<Rightarrow> event \<Rightarrow> loader \<Rightarrow> loader" where
  "step api (Load url) s = snd (loadImage api url 0 s)"
| "step api (StoreRead p outcome) s = on_store_read p outcome s"
| "step api (FetchDone p outcome e) s = on_fetch_done p outcome e s"
| "step api (TimerFired p) s = on_timer api p s"
| "step api (InitDone outcome) s = snd (initIndexedDB outcome s)"
| "step api (Cleanup t ok) s = cleanupIndexedDB t ok s"
| "step api (Batch urls) s = snd (prefetchBatch api urls s)"
| "step api (LoadAt url attempt) s = snd (loadImage api url attempt s)"
| "step api (Retry url) s = retryImage api url s"
| "step api (ClearCache ok) s = snd (clearCache ok s)"

definition run :: "url_api \<Rightarrow> event list \<Rightarrow> loader \<Rightarrow> loader" where
  "run api evs s = fold (step api) evs s"

text \<open>
  An attempt is in progress for a promise while its executor awaits the store read or the
  fetch.
\<close>

definition awaiting :: "promise \<Rightarrow> bool" where
  "awaiting r = (case stage r of AwaitStore d \<Rightarrow> True | AwaitFetch \<Rightarrow> True | _ \<Rightarrow> False)"

definition in_progress :: "loader \<Rightarrow> nat \<Rightarrow> bool" where
  "in_progress s p = (p < length (promises s) \<and> awaiting (promises s ! p))"

text \<open>
  What the in-flight map and the promises are to each other: the key of a promise and
  whether an attempt is in progress for it, and the statement that the attempts in progress
  are exactly the entries of the in-flight map.
\<close>

definition attempt_view :: "promise \<Rightarrow> string \<times> bool" where
  "attempt_view r = (p_key r, awaiting r)"

definition coord :: "(string, nat) js_map \<Rightarrow> (string \<times> bool) list \<Rightarrow> bool" where
  "coord l v =
     ((\<forall>p < length v. snd (v ! p) \<longrightarrow> map_get l (fst (v ! p)) = Some p)
      \<and> (\<forall>k p. map_get l k = Some p \<longrightarrow> p < length v \<and> snd (v ! p) \<and> fst (v ! p) = k))"

definition coordinated :: "loader \<Rightarrow> bool" where
  "coordinated s = coord (loading s) (map attempt_view (promises s))"

text \<open>
  The half of it that says what an entry is: every entry of the in-flight map belongs to a
  promise whose attempt is in progress for the key of the entry.
\<close>

definition live :: "(string, nat) js_map \<Rightarrow> (string \<times> bool) list \<Rightarrow> bool" where
  "live l v = (\<forall>k p. map_get l k = Some p \<longrightarrow> p < length v \<and> snd (v ! p) \<and> fst (v ! p) = k)"

text \<open>A property of the in-flight map and the attempts, read in a state of the loader.\<close>

definition holds_in ::
  "((string, nat) js_map \<Rightarrow> (string \<times> bool) list \<Rightarrow> bool) \<Rightarrow> loader \<Rightarrow> bool" where
  "holds_in P s = P (loading s) (map attempt_view (promises s))"

text \<open>
  What \<^verbatim>\<open>loadImage\<close> and the completions do to the in-flight map and to the attempts: an
  attempt starts for a key without an entry and the entry is made; a promise is created
  already fulfilled; an attempt in progress ends and the entry of its key is deleted. A
  property that these three keep is kept by every step but \<^verbatim>\<open>clearCache\<close>.
\<close>

definition kept_by_attempts ::
  "((string, nat) js_map \<Rightarrow> (string \<times> bool) list \<Rightarrow> bool) \<Rightarrow> bool" where
  "kept_by_attempts P =
     ((\<forall>l v k. P l v \<and> map_get l k = None \<longrightarrow> P (map_set k (length v) l) (v @ [(k, True)]))
      \<and> (\<forall>l v k. P l v \<longrightarrow> P l (v @ [(k, False)]))
      \<and> (\<forall>l v p. P l v \<and> p < length v \<and> snd (v ! p)
            \<longrightarrow> P (map_delete (fst (v ! p)) l) (v[p := (fst (v ! p), False)])))"

text \<open>
  A promise whose attempt is in progress is pending, and the promises that settle with
  another one are not waiting for a store read or a fetch of their own.
\<close>

definition pending_attempts :: "promise list \<Rightarrow> bool" where
  "pending_attempts ps =
     ((\<forall>p < length ps. awaiting (ps ! p) \<longrightarrow> status (ps ! p) = Pending)
      \<and> (\<forall>p < length ps. \<forall>q \<in> set (reactions (ps ! p)). q < length ps \<and> \<not> awaiting (ps ! q)))"

text \<open>
  The runs in which \<^verbatim>\<open>clearCache\<close> is called only while no attempt is in progress.
\<close>

fun quiet_clears :: "url_api \<Rightarrow> event list \<Rightarrow> loader \<Rightarrow> bool" where
  "quiet_clears api [] s = True"
| "quiet_clears api (ClearCache ok # evs) s =
     (\<not> list_ex awaiting (promises s) \<and> quiet_clears api evs (step api (ClearCache ok) s))"
| "quiet_clears api (ev # evs) s = quiet_clears api evs (step api ev s)"

text \<open>A key in the memory cache has no in-flight entry.\<close>

definition exclusive :: "loader \<Rightarrow> bool" where
  "exclusive s = (\<forall>k. map_has (memoryCache (mem s)) k \<longrightarrow> map_get (loading s) k = None)"

text \<open>
  The events of one call \<^verbatim>\<open>loadImage(url)\<close> whose attempts all fail, when no other call
  interferes: the promise of attempt \<open>k\<close> is the \<open>k\<close>-th promise created from \<open>p0\<close>
  on; \<open>rs\<close>, \<open>fs\<close> and \<open>es\<close> give what the platform answers at each attempt.
\<close>

definition all_fail_events ::
  "string \<Rightarrow> nat \<Rightarrow> (nat \<Rightarrow> read_outcome) \<Rightarrow> (nat \<Rightarrow> fetch_outcome) \<Rightarrow> (nat \<Rightarrow> env) \<Rightarrow> event list" where
  "all_fail_events url p0 rs fs es =
     Load url #
     concat (map (\<lambda>k. [StoreRead (p0 + k) (rs k), FetchDone (p0 + k) (fs k) (es k)]
                       @ (if k < MAX_RETRIES then [TimerFired (p0 + k)] else []))
                 [0..<MAX_RETRIES + 1])"

section \<open>Sample inputs\<close>

definition sample_url :: string where
  "sample_url = ''https://www.dropbox.com/s/abc123/pic.png?dl=0''"

definition sample_key :: string where
  "sample_key = convert_string sample_api sample_url"

definition sample_env :: env where
  "sample_env = \<lparr>rnd = 1 / 2, now = 1000, write_ok = True\<rparr>"

text \<open>A state with the sample key in the store only.\<close>

definition stored_loader :: loader where
  "stored_loader = init_loader\<lparr>db := True, store := [(sample_key, (7, 0))]\<rparr>"



text \<open>
  The sample load after the store has missed, and after its first fetch has failed: the
  retry timer is running.
\<close>

definition fetching_loader :: loader where
  "fetching_loader = run sample_api [Load sample_url, StoreRead 0 ReadError] init_loader"

definition backoff_loader :: loader where
  "backoff_loader =
     run sample_api [FetchDone 0 (FetchRejects ''offline'') sample_env] fetching_loader"

text \<open>
  Further states of the sample load: \<^verbatim>\<open>clearCache\<close> called during its store read,
  followed by a second load; a second load during the delay before the first retry, and
  that load fulfilled; and a successful load with the store open, whose cached handle
  \<^verbatim>\<open>clearCache\<close> then drops while the store keeps the image, followed by a second load.
\<close>

definition cleared_loader :: loader where
  "cleared_loader = run sample_api [Load sample_url, ClearCache True, Load sample_url] init_loader"

definition rejoined_loader :: loader where
  "rejoined_loader = run sample_api [Load sample_url] backoff_loader"

definition recached_loader :: loader where
  "recached_loader =
     run sample_api [StoreRead 1 ReadError,
                     FetchDone 1 (Response 200 (BlobOf 7 ''image/png'')) sample_env]
       rejoined_loader"

definition restocked_events :: "event list" where
  "restocked_events =
     [InitDone OpenSuccess, Load sample_url, StoreRead 0 (ReadSuccess 5),
      FetchDone 0 (Response 200 (BlobOf 7 ''image/png'')) sample_env,
      ClearCache False, Load sample_url]"

definition restocked_loader :: loader where
  "restocked_loader = run sample_api restocked_events init_loader"



text \<open>The sample load after its first fetch has succeeded.\<close>

definition warm_loader :: loader where
  "warm_loader =
     run sample_api [FetchDone 0 (Response 200 (BlobOf 7 ''image/png'')) sample_env]
       fetching_loader"

section \<open>Properties of the URL normalizer\<close>

text \<open>
  Claim C10. For every value that is not a string (null and undefined among them),
  \<^verbatim>\<open>convertDropboxUrl\<close> and \<^verbatim>\<open>normalizeImageUrls\<close> return the value itself. Both
  are total: on this path no operation of the source can throw, so the result has no
  error alternative.
\<close>

theorem non_string_returned_unchanged:
  "typeof v \<noteq> ''string'' \<Longrightarrow> convertDropboxUrl api v = v \<and> normalizeImageUrls api v = v"
  by (simp add: convertDropboxUrl_def normalizeImageUrls_def)

theorem non_string_returned_unchanged_witness:
  "typeof JNull \<noteq> ''string'' \<and> typeof JUndefined \<noteq> ''string''
   \<and> convertDropboxUrl sample_api JNull = JNull
   \<and> normalizeImageUrls sample_api JNull = JNull
   \<and> convertDropboxUrl sample_api JUndefined = JUndefined
   \<and> normalizeImageUrls sample_api JUndefined = JUndefined"
  using non_string_returned_unchanged [of JNull sample_api]
    non_string_returned_unchanged [of JUndefined sample_api]
  by simp

section \<open>Properties of the memory cache\<close>



lemma cache_max_pos: "0 < MEMORY_CACHE_MAX"
  by (simp add: MEMORY_CACHE_MAX_def)

lemma map_set_fresh: "k \<notin> fst ` set m \<Longrightarrow> map_set k v m = m @ [(k, v)]"
  by (induction m) auto

lemma map_delete_keys: "fst ` set (map_delete k m) = fst ` set m - {k}"
  by (auto simp: map_delete_def)

lemma map_delete_absent: "k \<notin> fst ` set m \<Longrightarrow> map_delete k m = m"
  by (induction m) (auto simp: map_delete_def)

lemma map_delete_distinct: "distinct (map fst m) \<Longrightarrow> distinct (map fst (map_delete k m))"
  by (simp add: map_delete_def distinct_map_filter)

lemma map_delete_length: "length (map_delete k m) \<le> length m"
  by (simp add: map_delete_def)

lemma map_delete_length_present:
  "k \<in> fst ` set m \<Longrightarrow> length (map_delete k m) < length m"
  unfolding map_delete_def
  by (auto intro: length_filter_less)

lemma map_set_keys: "fst ` set (map_set k v m) = insert k (fst ` set m)"
  by (induction m) auto

lemma map_set_key_in:
  assumes "(a, b) \<in> set (map_set k v m)"
  shows "a = k \<or> a \<in> fst ` set m"
proof -
  from assms have "a \<in> fst ` set (map_set k v m)" by force
  then show ?thesis by (simp add: map_set_keys)
qed

lemma map_set_distinct: "distinct (map fst m) \<Longrightarrow> distinct (map fst (map_set k v m))"
  by (induction m) (auto dest: map_set_key_in)

lemma map_set_length: "length (map_set k v m) \<le> Suc (length m)"
  by (induction m) auto

lemma evict_noop: "length (memoryCache s) < MEMORY_CACHE_MAX \<Longrightarrow> evict_oldest s = s"
  by (subst evict_oldest.simps) simp

lemma evict_length: "length (memoryCache (evict_oldest s)) < MEMORY_CACHE_MAX"
proof (induction s rule: evict_oldest.induct)
  case (1 s)
  show ?case
  proof (cases "length (memoryCache s) \<ge> MEMORY_CACHE_MAX")
    case False
    then show ?thesis by (subst evict_oldest.simps) simp
  next
    case True
    then obtain k v rest where m: "memoryCache s = (k, v) # rest"
      using cache_max_pos by (cases "memoryCache s") auto
    show ?thesis
      using "1.IH" [OF True m refl] True m
      by (subst evict_oldest.simps) simp
  qed
qed

lemma evict_distinct:
  "distinct (map fst (memoryCache s)) \<Longrightarrow> distinct (map fst (memoryCache (evict_oldest s)))"
proof (induction s rule: evict_oldest.induct)
  case (1 s)
  show ?case
  proof (cases "length (memoryCache s) \<ge> MEMORY_CACHE_MAX")
    case False
    then show ?thesis using "1.prems" by (subst evict_oldest.simps) simp
  next
    case True
    show ?thesis
    proof (cases "memoryCache s")
      case Nil
      then show ?thesis by (subst evict_oldest.simps) simp
    next
      case (Cons e rest)
      obtain k v where e: "e = (k, v)" by (cases e)
      have m: "memoryCache s = (k, v) # rest" using Cons e by simp
      have d: "distinct (map fst (memoryCache
                 (s\<lparr>memoryCache := map_delete k (memoryCache s),
                    effects := effects s @ [Revoked v]\<rparr>)))"
        using "1.prems" by (simp add: map_delete_distinct)
      show ?thesis
        using "1.IH" [OF True m refl d] True m
        by (subst evict_oldest.simps) simp
    qed
  qed
qed

lemma evict_full:
  assumes "length (memoryCache s) = MEMORY_CACHE_MAX" "distinct (map fst (memoryCache s))"
    "memoryCache s = (k0, h0) # rest"
  shows "evict_oldest s = s\<lparr>memoryCache := rest, effects := effects s @ [Revoked h0]\<rparr>"
proof -
  have del: "map_delete k0 (memoryCache s) = rest"
    using assms map_delete_absent [of k0 rest] by (simp add: map_delete_def)
  have small: "length rest < MEMORY_CACHE_MAX" using assms by simp
  show ?thesis
    using assms del evict_noop [of "s\<lparr>memoryCache := rest, effects := effects s @ [Revoked h0]\<rparr>"] small
    by (subst evict_oldest.simps) simp
qed


lemma store_not_full:
  assumes "length (memoryCache s) < MEMORY_CACHE_MAX" "\<not> map_has (memoryCache s) k"
  shows "storeInMemoryCache k h s =
         s\<lparr>memoryCache := memoryCache s @ [(k, h)], effects := effects s @ [Inserted k h]\<rparr>"
  using assms by (simp add: storeInMemoryCache_def evict_noop map_has_def map_set_fresh)

lemma store_full:
  assumes "length (memoryCache s) = MEMORY_CACHE_MAX" "distinct (map fst (memoryCache s))"
    "memoryCache s = (k0, h0) # rest" "\<not> map_has (memoryCache s) k"
  shows "storeInMemoryCache k h s =
         s\<lparr>memoryCache := rest @ [(k, h)],
           effects := effects s @ [Revoked h0, Inserted k h]\<rparr>"
  using assms by (simp add: storeInMemoryCache_def evict_full map_has_def map_set_fresh)

lemma get_hit:
  assumes "map_get (memoryCache s) k = Some h"
  shows "getFromMemoryCache k s =
         (Some h, s\<lparr>memoryCache := map_delete k (memoryCache s) @ [(k, h)]\<rparr>)"
proof -
  have "map_has (memoryCache s) k"
    using assms by (auto simp: map_has_def map_get_def dest: map_of_SomeD intro: image_eqI [where x = "(k, h)"])
  moreover have "map_set k h (map_delete k (memoryCache s)) = map_delete k (memoryCache s) @ [(k, h)]"
    by (rule map_set_fresh) (simp add: map_delete_keys)
  ultimately show ?thesis using assms by (simp add: getFromMemoryCache_def)
qed

lemma get_miss: "\<not> map_has (memoryCache s) k \<Longrightarrow> getFromMemoryCache k s = (None, s)"
  by (simp add: getFromMemoryCache_def)

lemma get_bounded:
  "length (memoryCache (snd (getFromMemoryCache k s))) \<le> length (memoryCache s)"
proof (cases "map_has (memoryCache s) k")
  case False
  then show ?thesis by (simp add: get_miss)
next
  case True
  then obtain h where h: "map_get (memoryCache s) k = Some h"
    by (auto simp: map_has_def map_get_def dest!: weak_map_of_SomeI)
  have "length (map_delete k (memoryCache s)) < length (memoryCache s)"
    using True by (simp add: map_has_def map_delete_length_present)
  then show ?thesis by (simp add: get_hit [OF h])
qed

lemma get_distinct:
  "distinct (map fst (memoryCache s)) \<Longrightarrow>
   distinct (map fst (memoryCache (snd (getFromMemoryCache k s))))"
  by (auto simp: getFromMemoryCache_def map_set_distinct map_delete_distinct split: option.splits)

lemma store_bounded: "length (memoryCache (storeInMemoryCache k h s)) \<le> MEMORY_CACHE_MAX"
  using evict_length [of s] map_set_length [of k h "memoryCache (evict_oldest s)"]
  by (simp add: storeInMemoryCache_def Let_def)

lemma store_distinct:
  "distinct (map fst (memoryCache s)) \<Longrightarrow>
   distinct (map fst (memoryCache (storeInMemoryCache k h s)))"
  by (simp add: storeInMemoryCache_def Let_def map_set_distinct evict_distinct)

lemma ops_bounded:
  "length (memoryCache s) \<le> MEMORY_CACHE_MAX \<Longrightarrow>
   length (memoryCache (run_cache_ops ops s)) \<le> MEMORY_CACHE_MAX"
  unfolding run_cache_ops_def
proof (induction ops arbitrary: s)
  case Nil
  then show ?case by simp
next
  case (Cons op ops)
  have "length (memoryCache (apply_cache_op op s)) \<le> MEMORY_CACHE_MAX"
  proof (cases op)
    case (Get k)
    then show ?thesis using get_bounded [of k s] Cons.prems by simp
  next
    case (Put k h)
    then show ?thesis by (simp add: store_bounded)
  qed
  then show ?case using Cons.IH by simp
qed

lemma puts_fill:
  assumes "distinct ks" "length hs = length ks"
    "length (memoryCache s) + length ks \<le> MEMORY_CACHE_MAX"
    "set ks \<inter> fst ` set (memoryCache s) = {}"
  shows "run_cache_ops (map2 Put ks hs) s =
         s\<lparr>memoryCache := memoryCache s @ zip ks hs,
           effects := effects s @ map2 Inserted ks hs\<rparr>"
  using assms unfolding run_cache_ops_def
proof (induction ks arbitrary: hs s)
  case Nil
  then show ?case by simp
next
  case (Cons k ks)
  then obtain h hs' where hs: "hs = h # hs'" by (cases hs) auto
  let ?s1 = "s\<lparr>memoryCache := memoryCache s @ [(k, h)], effects := effects s @ [Inserted k h]\<rparr>"
  have st: "storeInMemoryCache k h s = ?s1"
    using Cons.prems by (intro store_not_full) (auto simp: map_has_def)
  have "fold apply_cache_op (map2 Put ks hs') ?s1 =
        ?s1\<lparr>memoryCache := memoryCache ?s1 @ zip ks hs',
            effects := effects ?s1 @ map2 Inserted ks hs'\<rparr>"
    using Cons.prems hs by (intro Cons.IH) auto
  then show ?case using hs st by simp
qed


lemma run_cache_ops_append:
  "run_cache_ops (xs @ ys) s = run_cache_ops ys (run_cache_ops xs s)"
  by (simp add: run_cache_ops_def)

lemma insert_over_capacity:
  assumes "distinct (k0 # ks @ [k])" "Suc (length ks) = MEMORY_CACHE_MAX" "length hs = length ks"
  shows "run_cache_ops (Put k0 h0 # map2 Put ks hs @ [Put k h]) empty_mem =
         \<lparr>memoryCache = zip ks hs @ [(k, h)],
          effects = Inserted k0 h0 # map2 Inserted ks hs @ [Revoked h0, Inserted k h]\<rparr>"
proof -
  let ?s = "\<lparr>memoryCache = (k0, h0) # zip ks hs,
             effects = Inserted k0 h0 # map2 Inserted ks hs\<rparr>"
  have fill: "run_cache_ops (map2 Put (k0 # ks) (h0 # hs)) empty_mem = ?s"
    using assms puts_fill [of "k0 # ks" "h0 # hs" empty_mem]
    by (simp add: empty_mem_def)
  have keys: "fst ` set (zip ks hs) = set ks"
    using assms(3) by (metis map_fst_zip set_map)
  have full: "storeInMemoryCache k h ?s =
        ?s\<lparr>memoryCache := zip ks hs @ [(k, h)],
           effects := effects ?s @ [Revoked h0, Inserted k h]\<rparr>"
    using assms keys by (intro store_full) (auto simp: map_has_def)
  have "run_cache_ops (Put k0 h0 # map2 Put ks hs @ [Put k h]) empty_mem =
        run_cache_ops [Put k h] (run_cache_ops (map2 Put (k0 # ks) (h0 # hs)) empty_mem)"
    using run_cache_ops_append [of "map2 Put (k0 # ks) (h0 # hs)" "[Put k h]" empty_mem]
    by simp
  also have "\<dots> = storeInMemoryCache k h ?s"
    unfolding fill by (simp add: run_cache_ops_def)
  finally show ?thesis by (simp add: full)
qed

text \<open>
  Claim C6. The memory cache holds at most \<^verbatim>\<open>MEMORY_CACHE_MAX\<close> (50) entries. Storing
  a new key in a full cache evicts exactly the oldest entry of the access order and revokes
  its handle before the insertion; in particular, inserting 51 distinct keys into the empty
  cache revokes the handle of the first key only, just before the last insertion. A hit of
  \<^verbatim>\<open>getFromMemoryCache\<close> moves the entry to the most recent position. Any sequence of
  get and put operations keeps the cache within its capacity.
\<close>

theorem lru_memory_cache:
  fixes s :: "('k, 'h) mem"
  assumes "distinct (map fst (memoryCache s))"
  shows "(length (memoryCache s) = MEMORY_CACHE_MAX \<longrightarrow> memoryCache s = (k0, h0) # rest
            \<longrightarrow> \<not> map_has (memoryCache s) k
            \<longrightarrow> storeInMemoryCache k h s =
                 s\<lparr>memoryCache := rest @ [(k, h)],
                   effects := effects s @ [Revoked h0, Inserted k h]\<rparr>)
       \<and> (distinct (k1 # ks @ [k]) \<longrightarrow> Suc (length ks) = MEMORY_CACHE_MAX
            \<longrightarrow> length hs = length ks
            \<longrightarrow> run_cache_ops (Put k1 h1 # map2 Put ks hs @ [Put k h]) empty_mem =
                 \<lparr>memoryCache = zip ks hs @ [(k, h)],
                  effects = Inserted k1 h1 # map2 Inserted ks hs @ [Revoked h1, Inserted k h]\<rparr>)
       \<and> (map_get (memoryCache s) k' = Some h'
            \<longrightarrow> getFromMemoryCache k' s =
                 (Some h', s\<lparr>memoryCache := map_delete k' (memoryCache s) @ [(k', h')]\<rparr>))
       \<and> (length (memoryCache s) \<le> MEMORY_CACHE_MAX
            \<longrightarrow> length (memoryCache (run_cache_ops ops s)) \<le> MEMORY_CACHE_MAX)
       \<and> length (memoryCache (run_cache_ops ops (empty_mem :: ('k, 'h) mem))) \<le> MEMORY_CACHE_MAX"
proof -
  have e: "length (memoryCache (empty_mem :: ('k, 'h) mem)) \<le> MEMORY_CACHE_MAX"
    by (simp add: empty_mem_def)
  show ?thesis
    using assms store_full [of s k0 h0 rest k h] insert_over_capacity [of k1 ks k hs h1 h]
      get_hit [of s k' h'] ops_bounded [of s ops] ops_bounded [OF e, of ops]
    by blast
qed


theorem lru_memory_cache_witness:
  "distinct (map fst (memoryCache full_mem))
   \<and> length (memoryCache full_mem) = MEMORY_CACHE_MAX
   \<and> \<not> map_has (memoryCache full_mem) 50
   \<and> storeInMemoryCache 50 150 full_mem =
       \<lparr>memoryCache = map (\<lambda>i. (i, 100 + i)) [1..<50] @ [(50, 150)],
        effects = [Revoked 100, Inserted 50 150]\<rparr>
   \<and> distinct ((0::nat) # [1..<50] @ [50]) \<and> Suc (length [1..<50]) = MEMORY_CACHE_MAX
   \<and> run_cache_ops (Put 0 100 # map2 Put [1..<50] [101..<150] @ [Put 50 150]) empty_mem =
       \<lparr>memoryCache = zip [1..<50] [101..<150] @ [(50, 150)],
        effects = Inserted 0 100 # map2 Inserted [1..<50] [101..<150]
                    @ [Revoked (100::nat), Inserted 50 150]\<rparr>
   \<and> map_get (memoryCache full_mem) 0 = Some 100
   \<and> getFromMemoryCache 0 full_mem =
       (Some 100, full_mem\<lparr>memoryCache := map (\<lambda>i. (i, 100 + i)) [1..<50] @ [(0, 100)]\<rparr>)
   \<and> length (memoryCache (run_cache_ops [Put 50 150, Get 1] full_mem)) \<le> MEMORY_CACHE_MAX"
proof -
  have d: "distinct (map fst (memoryCache full_mem))"
    by (simp add: full_mem_def comp_def)
  have l: "length (memoryCache full_mem) = MEMORY_CACHE_MAX"
    by (simp add: full_mem_def MEMORY_CACHE_MAX_def)
  have n: "\<not> map_has (memoryCache full_mem) 50"
    by (auto simp: full_mem_def map_has_def)
  have m: "memoryCache full_mem = (0, 100) # map (\<lambda>i. (i, 100 + i)) [1..<50]"
    by (simp add: full_mem_def)
  have g: "map_get (memoryCache full_mem) 0 = Some 100"
    by (simp add: full_mem_def map_get_def)
  have dk: "distinct ((0::nat) # [1..<50] @ [50])" by simp
  have lk: "Suc (length [1..<50]) = MEMORY_CACHE_MAX" by (simp add: MEMORY_CACHE_MAX_def)
  have del: "map_delete 0 (memoryCache full_mem) = map (\<lambda>i. (i, 100 + i)) [1..<50]"
    by (simp add: m map_delete_def filter_map comp_def)
  show ?thesis
    using lru_memory_cache [OF d, of 0 100 "map (\<lambda>i. (i, 100 + i)) [1..<50]" 50 150 0 "[1..<50]"
        "[101..<150]" 100 0 100 "[Put 50 150, Get 1]"]
      d l n m g dk lk del
    by (simp add: full_mem_def)
qed


section \<open>Properties of the load coordinator\<close>



lemma map_get_set_same: "map_get (map_set k v m) k = Some v"
  by (induction m) (auto simp: map_get_def)

lemma map_get_set_other: "k' \<noteq> k \<Longrightarrow> map_get (map_set k v m) k' = map_get m k'"
  by (induction m) (auto simp: map_get_def)

lemma map_get_delete_same: "map_get (map_delete k m) k = None"
  by (induction m) (auto simp: map_get_def map_delete_def)

lemma map_get_delete_other: "k' \<noteq> k \<Longrightarrow> map_get (map_delete k m) k' = map_get m k'"
  by (induction m) (auto simp: map_get_def map_delete_def)

lemma map_has_get: "map_has m k \<longleftrightarrow> map_get m k \<noteq> None"
  by (induction m) (auto simp: map_has_def map_get_def)

lemma store_then_get: "map_get (memoryCache (storeInMemoryCache k h m)) k = Some h"
  by (simp add: storeInMemoryCache_def Let_def map_get_set_same)

text \<open>Settling and chaining change the status and the reactions of promises, nothing else.\<close>

lemma settle_view: "map attempt_view (settle work out ps) = map attempt_view ps"
proof (induction work out ps rule: settle.induct)
  case (1 out ps)
  then show ?case by simp
next
  case (2 p work out ps)
  show ?case
  proof (cases "p < length ps \<and> status (ps ! p) = Pending \<and> out \<noteq> Pending")
    case True
    have "map attempt_view (ps[p := (ps ! p)\<lparr>status := out\<rparr>]) = map attempt_view ps"
      using True by (simp add: map_update attempt_view_def awaiting_def list_update_same_conv)
    then show ?thesis using "2.IH"(1) [OF True] True by simp
  next
    case False
    then show ?thesis using "2.IH"(2) [OF False] by auto
  qed
qed

lemma settle_length: "length (settle work out ps) = length ps"
  using settle_view [of work out ps] by (metis length_map)

lemma chain_view: "map attempt_view (chain child parent ps) = map attempt_view ps"
  by (auto simp: chain_def settle_view map_update attempt_view_def awaiting_def
      list_update_same_conv split: settled.splits)


lemma set_stage_view:
  "map attempt_view (set_stage p st ps) =
   (map attempt_view ps)[p := (p_key (ps ! p), awaiting ((ps ! p)\<lparr>stage := st\<rparr>))]"
  by (simp add: set_stage_def map_update attempt_view_def awaiting_def)

lemma settle_others:
  "map (\<lambda>r. r\<lparr>status := Pending\<rparr>) (settle work out ps) = map (\<lambda>r. r\<lparr>status := Pending\<rparr>) ps"
proof (induction work out ps rule: settle.induct)
  case (1 out ps)
  then show ?case by simp
next
  case (2 p work out ps)
  show ?case
  proof (cases "p < length ps \<and> status (ps ! p) = Pending \<and> out \<noteq> Pending")
    case True
    have "map (\<lambda>r. r\<lparr>status := Pending\<rparr>) (ps[p := (ps ! p)\<lparr>status := out\<rparr>])
          = map (\<lambda>r. r\<lparr>status := Pending\<rparr>) ps"
      using True by (simp add: map_update list_update_same_conv)
    then show ?thesis using "2.IH"(1) [OF True] True by simp
  next
    case False
    then show ?thesis using "2.IH"(2) [OF False] by auto
  qed
qed

lemma settle_nth:
  assumes "p < length ps"
  shows "(settle work out ps ! p)\<lparr>status := Pending\<rparr> = (ps ! p)\<lparr>status := Pending\<rparr>"
proof -
  have "map (\<lambda>r. r\<lparr>status := Pending\<rparr>) (settle work out ps) ! p
        = map (\<lambda>r. r\<lparr>status := Pending\<rparr>) ps ! p"
    by (simp add: settle_others)
  then show ?thesis using assms by (simp add: settle_length)
qed

lemma settle_stage: "p < length ps \<Longrightarrow> stage (settle work out ps ! p) = stage (ps ! p)"
  using arg_cong [OF settle_nth [of p ps work out], of stage] by simp

lemma settle_reactions:
  "p < length ps \<Longrightarrow> reactions (settle work out ps ! p) = reactions (ps ! p)"
  using arg_cong [OF settle_nth [of p ps work out], of reactions] by simp

lemma loadImage_dedup:
  "map_get (loading s) (convert_string api url) = Some p \<Longrightarrow> loadImage api url k s = (p, s)"
  by (simp add: loadImage_def)

lemma loadImage_memory_hit:
  assumes "map_get (loading s) (convert_string api url) = None"
    "map_get (memoryCache (mem s)) (convert_string api url) = Some h"
  shows "loadImage api url k s =
         (length (promises s),
          s\<lparr>mem := (mem s)\<lparr>memoryCache :=
                   map_delete (convert_string api url) (memoryCache (mem s))
                     @ [(convert_string api url, h)]\<rparr>,
            promises := promises s @
              [\<lparr>status = Fulfilled h, reactions = [], p_url = url,
                p_key = convert_string api url, p_attempt = k, stage = Idle\<rparr>]\<rparr>)"
  using assms by (simp add: loadImage_def get_hit Let_def)

lemma loadImage_start:
  assumes "map_get (loading s) (convert_string api url) = None"
    "map_get (memoryCache (mem s)) (convert_string api url) = None"
  shows "loadImage api url k s =
         (length (promises s),
          s\<lparr>promises := promises s @
              [\<lparr>status = Pending, reactions = [], p_url = url,
                p_key = convert_string api url, p_attempt = k, stage = AwaitStore (db s)\<rparr>],
            loading := map_set (convert_string api url) (length (promises s)) (loading s)\<rparr>)"
  using assms by (simp add: loadImage_def get_miss map_has_get Let_def)

text \<open>
  With \<^verbatim>\<open>state.db\<close> unset the store is out of the way: a read returns \<^verbatim>\<open>null\<close>, a
  write and the retention sweep change nothing, and a load whose fetch succeeds is fulfilled
  and cached in memory, nothing being written to the store. That is the state
  \<^verbatim>\<open>initIndexedDB\<close> leaves when \<^verbatim>\<open>indexedDB\<close> is absent or the open request fires its
  error event: the promise resolves with \<^verbatim>\<open>null\<close>.
\<close>

lemma store_unset_degrades:
  assumes "outcome = NoIndexedDB \<or> outcome = OpenError" "\<not> db s"
    "map_get (loading s) (convert_string api url) = None"
    "map_get (memoryCache (mem s)) (convert_string api url) = None"
    "startsWith ty ''image/''"
  shows "initIndexedDB outcome s = (ResolvedNull, s)
       \<and> getFromIndexedDB (db s) key r s = None
       \<and> storeInIndexedDB key b t ok s = s
       \<and> cleanupIndexedDB t ok s = s
       \<and> (let s' = run api [InitDone outcome, Cleanup t ok, Load url,
                              StoreRead (length (promises s)) r,
                              FetchDone (length (promises s)) (Response 200 (BlobOf b ty)) e] s
          in status (promises s' ! length (promises s)) = Fulfilled (length (objectUrls s))
           \<and> map_get (memoryCache (mem s')) (convert_string api url) = Some (length (objectUrls s))
           \<and> objectUrls s' = objectUrls s @ [b]
           \<and> store s' = store s \<and> \<not> db s'
           \<and> fetches s' = fetches s @ [convert_string api url])"
proof -
  have i: "initIndexedDB outcome s = (ResolvedNull, s)" using assms(1) by auto
  have g: "getFromIndexedDB (db s) key r s = None" for key
    using assms(2) by (simp add: getFromIndexedDB_def)
  have w: "storeInIndexedDB key b t ok s = s" using assms(2) by (simp add: storeInIndexedDB_def)
  have c: "cleanupIndexedDB t ok s = s" using assms(2) by (simp add: cleanupIndexedDB_def)
  let ?p = "length (promises s)"
  let ?k = "convert_string api url"
  have l: "loadImage api url 0 s = (?p,
          s\<lparr>promises := promises s @
              [\<lparr>status = Pending, reactions = [], p_url = url,
                p_key = ?k, p_attempt = 0, stage = AwaitStore (db s)\<rparr>],
            loading := map_set ?k ?p (loading s)\<rparr>)"
    by (rule loadImage_start) (use assms in auto)
  have rb: "response_blob (Response 200 (BlobOf b ty)) = Inr b"
    using assms(5) by (simp add: response_blob_def)
  show ?thesis
    unfolding Let_def run_def
    using assms(2)
    by (simp add: i g w c l on_store_read_def on_fetch_done_def getFromIndexedDB_def rb
        storeInIndexedDB_def cache_blob_def set_stage_def store_then_get Let_def)
qed

text \<open>
  Claim C8, where the code departs from it. The claim promises that \<^verbatim>\<open>init\<close> reports
  an unavailable store without throwing whenever opening the store fails. When
  \<^verbatim>\<open>indexedDB.open\<close> throws, the promise of \<^verbatim>\<open>initIndexedDB\<close> is rejected instead of
  resolving with \<^verbatim>\<open>null\<close>, in every state; the two other ways of being unavailable
  resolve with \<^verbatim>\<open>null\<close>, as the claim says.
\<close>

theorem init_rejects_when_open_throws:
  "initIndexedDB OpenThrows s = (RejectedInit, s)
   \<and> fst (initIndexedDB OpenThrows s) \<noteq> ResolvedNull
   \<and> initIndexedDB NoIndexedDB s = (ResolvedNull, s)
   \<and> initIndexedDB OpenError s = (ResolvedNull, s)"
  by simp

lemma on_store_read_miss:
  assumes "p < length (promises s)" "stage (promises s ! p) = AwaitStore d"
    "getFromIndexedDB d (p_key (promises s ! p)) outcome s = None"
  shows "on_store_read p outcome s =
         s\<lparr>promises := set_stage p AwaitFetch (promises s),
           fetches := fetches s @ [p_key (promises s ! p)]\<rparr>"
  using assms by (simp add: on_store_read_def Let_def)

lemma on_fetch_done_retry:
  assumes "p < length (promises s)" "stage (promises s ! p) = AwaitFetch"
    "response_blob outcome = Inl err" "p_attempt (promises s ! p) < MAX_RETRIES"
  shows "on_fetch_done p outcome e s =
         s\<lparr>loading := map_delete (p_key (promises s ! p)) (loading s),
           promises := set_stage p
              (AwaitTimer (getRetryDelay (rnd e) (p_attempt (promises s ! p)))) (promises s)\<rparr>"
  using assms by (simp add: on_fetch_done_def Let_def)

lemma on_fetch_done_final:
  assumes "p < length (promises s)" "stage (promises s ! p) = AwaitFetch"
    "response_blob outcome = Inl err" "\<not> p_attempt (promises s ! p) < MAX_RETRIES"
  shows "on_fetch_done p outcome e s =
         s\<lparr>failed := map_set (p_key (promises s ! p))
                       \<lparr>attempts = p_attempt (promises s ! p) + 1, lastAttempt = now e,
                         error = err\<rparr> (failed s),
           loading := map_delete (p_key (promises s ! p)) (loading s),
           promises := settle [p] (Rejected err) (set_stage p Idle (promises s))\<rparr>"
  using assms by (simp add: on_fetch_done_def Let_def)

lemma on_timer_fire:
  assumes "p < length (promises s)" "stage (promises s ! p) = AwaitTimer d"
  shows "on_timer api p s =
         (let r = loadImage api (p_url (promises s ! p)) (p_attempt (promises s ! p) + 1)
                    (s\<lparr>promises := set_stage p Idle (promises s)\<rparr>)
          in (snd r)\<lparr>promises := chain (fst r) p (promises (snd r))\<rparr>)"
  using assms by (simp add: on_timer_def Let_def split: prod.splits)

lemma getFromIndexedDB_cong:
  "store t = store s \<Longrightarrow> getFromIndexedDB d k r t = getFromIndexedDB d k r s"
  by (simp add: getFromIndexedDB_def split: read_outcome.splits)

lemma map_set_absent: "map_get m k = None \<Longrightarrow> map_set k v m = m @ [(k, v)]"
  by (rule map_set_fresh) (simp add: map_get_def map_of_eq_None_iff)

lemma map_delete_appended: "map_get m k = None \<Longrightarrow> map_delete k (m @ [(k, v)]) = m"
  using map_delete_absent [of k m] by (simp add: map_delete_def map_get_def map_of_eq_None_iff)

text \<open>
  The state after the events of a load whose attempts all fail: four promises, each settling
  the one before it, all rejected with the last error.
\<close>

lemma all_fail_run:
  assumes "key = convert_string api url"
    "map_get (loading s) key = None" "map_get (memoryCache (mem s)) key = None"
    "\<forall>k \<le> MAX_RETRIES. getFromIndexedDB (db s) key (rs k) s = None"
    "\<forall>k \<le> MAX_RETRIES. response_blob (fs k) = Inl (errs k)"
  shows "run api (all_fail_events url (length (promises s)) rs fs es) s =
     s\<lparr>promises := promises s @
        [\<lparr>status = Rejected (errs 3), reactions = [], p_url = url, p_key = key,
          p_attempt = 0, stage = Idle\<rparr>,
         \<lparr>status = Rejected (errs 3), reactions = [length (promises s)], p_url = url,
          p_key = key, p_attempt = 1, stage = Idle\<rparr>,
         \<lparr>status = Rejected (errs 3), reactions = [length (promises s) + 1], p_url = url,
          p_key = key, p_attempt = 2, stage = Idle\<rparr>,
         \<lparr>status = Rejected (errs 3), reactions = [length (promises s) + 2], p_url = url,
          p_key = key, p_attempt = 3, stage = Idle\<rparr>],
       failed := map_set key \<lparr>attempts = 4, lastAttempt = now (es 3), error = errs 3\<rparr>
                   (failed s),
       fetches := fetches s @ [key, key, key, key]\<rparr>"
proof -
  let ?n = "length (promises s)"
  have k1: "convert_string api url = key" using assms(1) by simp
  let ?new = "\<lambda>k rs st. \<lparr>status = Pending, reactions = rs, p_url = url, p_key = key,
                         p_attempt = k, stage = st\<rparr>"
  have g: "getFromIndexedDB (db s) key (rs k) t = None" if "store t = store s" "k \<le> 3" for t k
    using assms(4) that getFromIndexedDB_cong [of t s "db s" key "rs k"]
    by (simp add: MAX_RETRIES_def)
  have f: "response_blob (fs k) = Inl (errs k)" if "k \<le> 3" for k
    using assms(5) that by (simp add: MAX_RETRIES_def)
  define s0 where "s0 = s\<lparr>promises := promises s @ [?new 0 [] (AwaitStore (db s))],
                          loading := loading s @ [(key, ?n)]\<rparr>"
  have l0: "snd (loadImage api url 0 s) = s0"
    using assms(2,3) by (simp add: k1 loadImage_start s0_def map_set_absent)
  define a0 where "a0 = s\<lparr>promises := promises s @ [?new 0 [] (AwaitFetch)],
                          loading := loading s @ [(key, ?n)],
                          fetches := fetches s @ [key]\<rparr>"
  have r0: "on_store_read ?n (rs 0) s0 = a0"
    by (subst on_store_read_miss [where d = "db s"])
       (simp_all add: s0_def a0_def g set_stage_def nth_append list_update_append)
  define b0 where "b0 = s\<lparr>promises := promises s @ [?new 0 [] (AwaitTimer (getRetryDelay (rnd (es 0)) 0))],
                          fetches := fetches s @ [key]\<rparr>"
  have d0: "on_fetch_done ?n (fs 0) (es 0) a0 = b0"
    by (subst on_fetch_done_retry [where err = "errs 0"])
       (simp_all add: a0_def b0_def f set_stage_def MAX_RETRIES_def map_delete_appended
          assms(2) nth_append list_update_append)
  define s1 where "s1 = s\<lparr>promises := promises s @ [?new 0 [] (Idle), ?new 1 [?n] (AwaitStore (db s))],
                          loading := loading s @ [(key, ?n + 1)],
                          fetches := fetches s @ [key]\<rparr>"
  have t0: "on_timer api ?n b0 = s1"
    by (subst on_timer_fire [where d = "getRetryDelay (rnd (es 0)) 0"])
       (simp_all add: b0_def s1_def set_stage_def nth_append list_update_append loadImage_start k1 assms(2,3)
          map_set_absent chain_def Let_def)
  define a1 where "a1 = s\<lparr>promises := promises s @ [?new 0 [] (Idle), ?new 1 [?n] (AwaitFetch)],
                          loading := loading s @ [(key, ?n + 1)],
                          fetches := fetches s @ [key, key]\<rparr>"
  have r1: "on_store_read (?n + 1) (rs 1) s1 = a1"
    by (subst on_store_read_miss [where d = "db s"])
       (simp_all add: s1_def a1_def g set_stage_def nth_append list_update_append)
  define b1 where "b1 = s\<lparr>promises := promises s @ [?new 0 [] (Idle), ?new 1 [?n] (AwaitTimer (getRetryDelay (rnd (es 1)) 1))],
                          fetches := fetches s @ [key, key]\<rparr>"
  have d1: "on_fetch_done (?n + 1) (fs 1) (es 1) a1 = b1"
    by (subst on_fetch_done_retry [where err = "errs 1"])
       (simp_all add: a1_def b1_def f set_stage_def MAX_RETRIES_def map_delete_appended
          assms(2) nth_append list_update_append)
  define s2 where "s2 = s\<lparr>promises := promises s @ [?new 0 [] (Idle), ?new 1 [?n] (Idle), ?new 2 [?n + 1] (AwaitStore (db s))],
                          loading := loading s @ [(key, ?n + 2)],
                          fetches := fetches s @ [key, key]\<rparr>"
  have t1: "on_timer api (?n + 1) b1 = s2"
    by (subst on_timer_fire [where d = "getRetryDelay (rnd (es 1)) 1"])
       (simp_all add: b1_def s2_def set_stage_def nth_append list_update_append loadImage_start k1 assms(2,3)
          map_set_absent chain_def Let_def)
  define a2 where "a2 = s\<lparr>promises := promises s @ [?new 0 [] (Idle), ?new 1 [?n] (Idle), ?new 2 [?n + 1] (AwaitFetch)],
                          loading := loading s @ [(key, ?n + 2)],
                          fetches := fetches s @ [key, key, key]\<rparr>"
  have r2: "on_store_read (?n + 2) (rs 2) s2 = a2"
    by (subst on_store_read_miss [where d = "db s"])
       (simp_all add: s2_def a2_def g set_stage_def nth_append list_update_append)
  define b2 where "b2 = s\<lparr>promises := promises s @ [?new 0 [] (Idle), ?new 1 [?n] (Idle), ?new 2 [?n + 1] (AwaitTimer (getRetryDelay (rnd (es 2)) 2))],
                          fetches := fetches s @ [key, key, key]\<rparr>"
  have d2: "on_fetch_done (?n + 2) (fs 2) (es 2) a2 = b2"
    by (subst on_fetch_done_retry [where err = "errs 2"])
       (simp_all add: a2_def b2_def f set_stage_def MAX_RETRIES_def map_delete_appended
          assms(2) nth_append list_update_append)
  define s3 where "s3 = s\<lparr>promises := promises s @ [?new 0 [] (Idle), ?new 1 [?n] (Idle), ?new 2 [?n + 1] (Idle), ?new 3 [?n + 2] (AwaitStore (db s))],
                          loading := loading s @ [(key, ?n + 3)],
                          fetches := fetches s @ [key, key, key]\<rparr>"
  have t2: "on_timer api (?n + 2) b2 = s3"
    by (subst on_timer_fire [where d = "getRetryDelay (rnd (es 2)) 2"])
       (simp_all add: b2_def s3_def set_stage_def nth_append list_update_append loadImage_start k1 assms(2,3)
          map_set_absent chain_def Let_def)
  define a3 where "a3 = s\<lparr>promises := promises s @ [?new 0 [] (Idle), ?new 1 [?n] (Idle), ?new 2 [?n + 1] (Idle), ?new 3 [?n + 2] (AwaitFetch)],
                          loading := loading s @ [(key, ?n + 3)],
                          fetches := fetches s @ [key, key, key, key]\<rparr>"
  have r3: "on_store_read (?n + 3) (rs 3) s3 = a3"
    by (subst on_store_read_miss [where d = "db s"])
       (simp_all add: s3_def a3_def g set_stage_def nth_append list_update_append)
  define z where "z = s\<lparr>promises := promises s @ [\<lparr>status = Rejected (errs 3), reactions = [], p_url = url, p_key = key, p_attempt = 0, stage = Idle\<rparr>,
      \<lparr>status = Rejected (errs 3), reactions = [?n], p_url = url, p_key = key, p_attempt = 1, stage = Idle\<rparr>,
      \<lparr>status = Rejected (errs 3), reactions = [?n + 1], p_url = url, p_key = key, p_attempt = 2, stage = Idle\<rparr>,
      \<lparr>status = Rejected (errs 3), reactions = [?n + 2], p_url = url, p_key = key, p_attempt = 3, stage = Idle\<rparr>],
      failed := map_set key \<lparr>attempts = 4, lastAttempt = now (es 3), error = errs 3\<rparr> (failed s),
      fetches := fetches s @ [key, key, key, key]\<rparr>"
  have d3: "on_fetch_done (?n + 3) (fs 3) (es 3) a3 = z"
    by (subst on_fetch_done_final [where err = "errs 3"])
       (simp_all add: a3_def z_def f set_stage_def MAX_RETRIES_def map_delete_appended
          assms(2) nth_append list_update_append)
  have evs: "all_fail_events url ?n rs fs es =
      [Load url,
       StoreRead ?n (rs 0), FetchDone ?n (fs 0) (es 0), TimerFired ?n,
       StoreRead (?n + 1) (rs 1), FetchDone (?n + 1) (fs 1) (es 1), TimerFired (?n + 1),
       StoreRead (?n + 2) (rs 2), FetchDone (?n + 2) (fs 2) (es 2), TimerFired (?n + 2),
       StoreRead (?n + 3) (rs 3), FetchDone (?n + 3) (fs 3) (es 3)]"
    by (simp add: all_fail_events_def MAX_RETRIES_def upt_rec numeral_3_eq_3 numeral_2_eq_2)
  have "run api (all_fail_events url ?n rs fs es) s = z"
    unfolding evs run_def
    by (simp only: fold_simps step.simps comp_apply l0 r0 d0 t0 r1 d1 t1 r2 d2 t2 r3 d3)
  then show ?thesis by (simp add: z_def)
qed

text \<open>
  Claim C2. A load whose store reads all miss and whose fetches all fail performs
  \<^verbatim>\<open>MAX_RETRIES + 1\<close> fetches of the key (four), then rejects the promise handed to the
  caller with the last error, records the failure with \<open>attempts = MAX_RETRIES + 1\<close>, and
  leaves no in-flight entry for the key. The events are those of this one load.
\<close>

theorem always_failing_load:
  assumes "key = convert_string api url"
    "map_get (loading s) key = None" "map_get (memoryCache (mem s)) key = None"
    "\<forall>k \<le> MAX_RETRIES. getFromIndexedDB (db s) key (rs k) s = None"
    "\<forall>k \<le> MAX_RETRIES. response_blob (fs k) = Inl (errs k)"
  shows "(let s' = run api (all_fail_events url (length (promises s)) rs fs es) s
          in fetches s' = fetches s @ replicate (MAX_RETRIES + 1) key
           \<and> map_get (failed s') key =
               Some \<lparr>attempts = MAX_RETRIES + 1, lastAttempt = now (es MAX_RETRIES),
                     error = errs MAX_RETRIES\<rparr>
           \<and> map_get (loading s') key = None
           \<and> status (promises s' ! length (promises s)) = Rejected (errs MAX_RETRIES)
           \<and> length (promises s') = length (promises s) + MAX_RETRIES + 1
           \<and> mem s' = mem s \<and> store s' = store s)"
  unfolding all_fail_run [OF assms] Let_def
  by (simp add: MAX_RETRIES_def map_get_set_same assms(2) nth_append numeral_eq_Suc)


theorem always_failing_load_witness:
  "map_get (loading init_loader) (convert_string sample_api sample_url) = None
   \<and> map_get (memoryCache (mem init_loader)) (convert_string sample_api sample_url) = None
   \<and> getFromIndexedDB (db init_loader) (convert_string sample_api sample_url)
         ReadError init_loader = None
   \<and> response_blob (Response 503 (BlobFails [])) = Inl (HttpStatus 503)
   \<and> fetches (run sample_api
         (all_fail_events sample_url 0 (\<lambda>k. ReadError) (\<lambda>k. Response 503 (BlobFails []))
            (\<lambda>k. sample_env)) init_loader)
       = replicate (MAX_RETRIES + 1) (convert_string sample_api sample_url)
   \<and> status (promises (run sample_api
         (all_fail_events sample_url 0 (\<lambda>k. ReadError) (\<lambda>k. Response 503 (BlobFails []))
            (\<lambda>k. sample_env)) init_loader) ! 0)
       = Rejected (HttpStatus 503)"
  using always_failing_load [of "convert_string sample_api sample_url" sample_api sample_url
      init_loader "\<lambda>k. ReadError" "\<lambda>k. Response 503 (BlobFails [])" "\<lambda>k. HttpStatus 503"
      "\<lambda>k. sample_env"]
  by (simp add: init_loader_def empty_mem_def map_get_def getFromIndexedDB_def
      response_blob_def Let_def)

text \<open>The sample load at its first fetch, and in the delay before its first retry.\<close>

lemma fetching_value:
  "fetching_loader = init_loader
     \<lparr>loading := [(sample_key, 0)],
      promises := [\<lparr>status = Pending, reactions = [], p_url = sample_url, p_key = sample_key,
                    p_attempt = 0, stage = AwaitFetch\<rparr>],
      fetches := [sample_key]\<rparr>"
  by (simp add: fetching_loader_def run_def loadImage_def on_store_read_def getFromIndexedDB_def
      getFromMemoryCache_def set_stage_def init_loader_def empty_mem_def map_get_def map_has_def
      sample_key_def Let_def)

lemma backoff_value:
  "backoff_loader = init_loader
     \<lparr>promises := [\<lparr>status = Pending, reactions = [], p_url = sample_url, p_key = sample_key,
                    p_attempt = 0, stage = AwaitTimer 1150\<rparr>],
      fetches := [sample_key]\<rparr>"
  by (simp add: backoff_loader_def fetching_value run_def on_fetch_done_def response_blob_def
      set_stage_def init_loader_def map_delete_def MAX_RETRIES_def getRetryDelay_def
      BASE_RETRY_DELAY_def MAX_RETRY_DELAY_def sample_env_def Let_def)

section \<open>Properties of the retry delay\<close>

text \<open>
  A delay is computed only after a failed attempt that a retry follows: after the attempt
  \<^verbatim>\<open>MAX_RETRIES\<close>, or a later one, the failed fetch starts no timer.
\<close>

lemma no_delay_after_last_attempt:
  assumes "p < length (promises s)" "stage (promises s ! p) = AwaitFetch"
    "response_blob outcome = Inl err" "\<not> p_attempt (promises s ! p) < MAX_RETRIES"
  shows "stage (promises (on_fetch_done p outcome e s) ! p) = Idle"
  using assms
  by (simp add: on_fetch_done_final [OF assms] settle_stage set_stage_def del: settle.simps)

text \<open>
  Claim C3. The loader schedules a retry after a failed attempt \<open>k\<close> below
  \<^verbatim>\<open>MAX_RETRIES\<close>. For every such \<open>k\<close> and every jitter fraction \<open>r\<close> in \<open>[0, 1)\<close> the
  delay is \<open>min (base * 2^k + r * 0.3 * base * 2^k) maxDelay\<close> with \<open>base = 1000\<close> and
  \<open>maxDelay = 10000\<close>, it lies in the interval
  \<open>[base * 2^k, min (base * 2^k * 1.3) maxDelay]\<close>, and it is the delay of the timer that
  the failed fetch of attempt \<open>k\<close> starts.
\<close>

theorem retry_delay_bounds:
  assumes "k < MAX_RETRIES" "0 \<le> r" "r < 1"
  shows "getRetryDelay r k = min (1000 * 2 ^ k + r * 0.3 * (1000 * 2 ^ k)) 10000
    \<and> BASE_RETRY_DELAY = 1000 \<and> MAX_RETRY_DELAY = 10000
    \<and> BASE_RETRY_DELAY * 2 ^ k \<le> getRetryDelay r k
    \<and> getRetryDelay r k \<le> min (BASE_RETRY_DELAY * 2 ^ k * 1.3) MAX_RETRY_DELAY
    \<and> (p < length (promises s) \<and> stage (promises s ! p) = AwaitFetch
         \<and> p_attempt (promises s ! p) = k \<and> response_blob outcome = Inl err \<and> rnd e = r
       \<longrightarrow> stage (promises (on_fetch_done p outcome e s) ! p) = AwaitTimer (getRetryDelay r k))"
proof -
  define e' :: real where "e' = 1000 * 2 ^ k"
  define j :: real where "j = r * 0.3 * e'"
  have e0: "0 < e'" by (simp add: e'_def)
  have j0: "0 \<le> j" using assms e0 by (simp add: j_def)
  have "r * e' \<le> 1 * e'" using assms e0 by (intro mult_right_mono) auto
  then have j1: "e' + j \<le> e' * 1.3" by (simp add: j_def mult.commute)
  have d: "getRetryDelay r k = min (e' + j) 10000"
    by (simp add: getRetryDelay_def BASE_RETRY_DELAY_def MAX_RETRY_DELAY_def e'_def j_def Let_def)
  have k3: "e' \<le> 10000"
  proof -
    from assms(1) have "(2::real) ^ k \<le> 2 ^ 3"
      by (intro power_increasing) (auto simp: MAX_RETRIES_def)
    then show ?thesis by (simp add: e'_def)
  qed
  have c1: "getRetryDelay r k = min (1000 * 2 ^ k + r * 0.3 * (1000 * 2 ^ k)) 10000"
    by (simp add: d e'_def j_def)
  have c2: "BASE_RETRY_DELAY = 1000 \<and> MAX_RETRY_DELAY = 10000"
    by (simp add: BASE_RETRY_DELAY_def MAX_RETRY_DELAY_def)
  have c3: "BASE_RETRY_DELAY * 2 ^ k \<le> getRetryDelay r k"
    using k3 j0 unfolding d BASE_RETRY_DELAY_def e'_def [symmetric] by (simp add: min_def)
  have c4: "getRetryDelay r k \<le> min (BASE_RETRY_DELAY * 2 ^ k * 1.3) MAX_RETRY_DELAY"
    using j1 unfolding d BASE_RETRY_DELAY_def MAX_RETRY_DELAY_def e'_def [symmetric]
    by (simp add: min_def)
  have c5: "p < length (promises s) \<and> stage (promises s ! p) = AwaitFetch
         \<and> p_attempt (promises s ! p) = k \<and> response_blob outcome = Inl err \<and> rnd e = r
       \<longrightarrow> stage (promises (on_fetch_done p outcome e s) ! p) = AwaitTimer (getRetryDelay r k)"
  proof (intro impI, elim conjE)
    assume h: "p < length (promises s)" "stage (promises s ! p) = AwaitFetch"
      "p_attempt (promises s ! p) = k" "response_blob outcome = Inl err" "rnd e = r"
    have "p_attempt (promises s ! p) < MAX_RETRIES" using h(3) assms(1) by simp
    from on_fetch_done_retry [OF h(1,2,4) this, of e] show
      "stage (promises (on_fetch_done p outcome e s) ! p) = AwaitTimer (getRetryDelay r k)"
      using h by (simp add: set_stage_def)
  qed
  show ?thesis by (intro conjI c1 c2 [THEN conjunct1] c2 [THEN conjunct2] c3 c4 c5)
qed

theorem retry_delay_bounds_witness:
  "(2::nat) < MAX_RETRIES \<and> (0::real) \<le> 1 / 2 \<and> (1 / 2 :: real) < 1
   \<and> getRetryDelay (1 / 2) 2 = 4600
   \<and> BASE_RETRY_DELAY * 2 ^ 2 = 4000
   \<and> BASE_RETRY_DELAY * 2 ^ 2 \<le> getRetryDelay (1 / 2) 2
   \<and> min (BASE_RETRY_DELAY * 2 ^ 2 * 1.3) MAX_RETRY_DELAY = 5200
   \<and> getRetryDelay (1 / 2) 2 \<le> min (BASE_RETRY_DELAY * 2 ^ 2 * 1.3) MAX_RETRY_DELAY
   \<and> (0::nat) < MAX_RETRIES
   \<and> 0 < length (promises fetching_loader)
   \<and> stage (promises fetching_loader ! 0) = AwaitFetch
   \<and> p_attempt (promises fetching_loader ! 0) = 0
   \<and> response_blob (FetchRejects ''offline'') = Inl (FetchFailed ''offline'')
   \<and> rnd sample_env = 1 / 2
   \<and> getRetryDelay (1 / 2) 0 = 1150
   \<and> stage (promises (on_fetch_done 0 (FetchRejects ''offline'') sample_env fetching_loader) ! 0)
       = AwaitTimer 1150"
proof -
  have k2: "(2::nat) < MAX_RETRIES" and k0: "(0::nat) < MAX_RETRIES"
    by (simp_all add: MAX_RETRIES_def)
  have r: "(0::real) \<le> 1 / 2" "(1 / 2 :: real) < 1" by simp_all
  note a = retry_delay_bounds [OF k2 r, of 0 init_loader "FetchRejects ''offline''"
      "FetchFailed ''offline''" sample_env]
  note b = retry_delay_bounds [OF k0 r, of 0 fetching_loader "FetchRejects ''offline''"
      "FetchFailed ''offline''" sample_env]
  have v2: "getRetryDelay (1 / 2) 2 = 4600" using a by simp
  have v0: "getRetryDelay (1 / 2) 0 = 1150" using b by simp
  have c: "BASE_RETRY_DELAY * 2 ^ 2 = 4000"
    "min (BASE_RETRY_DELAY * 2 ^ 2 * 1.3) MAX_RETRY_DELAY = 5200"
    by (simp_all add: BASE_RETRY_DELAY_def MAX_RETRY_DELAY_def)
  have f: "0 < length (promises fetching_loader)"
    "stage (promises fetching_loader ! 0) = AwaitFetch"
    "p_attempt (promises fetching_loader ! 0) = 0"
    by (simp_all add: fetching_value init_loader_def)
  have g: "response_blob (FetchRejects ''offline'') = Inl (FetchFailed ''offline'')"
    "rnd sample_env = 1 / 2"
    by (simp_all add: response_blob_def sample_env_def)
  have t: "stage (promises (on_fetch_done 0 (FetchRejects ''offline'') sample_env fetching_loader) ! 0)
       = AwaitTimer 1150"
    using b f g unfolding v0 by blast
  show ?thesis
    unfolding v2 v0 c using k2 k0 r f g t by (simp add: MAX_RETRY_DELAY_def)
qed

section \<open>The in-flight map\<close>


lemma coord_start:
  assumes "coord l v" "map_get l k = None"
  shows "coord (map_set k (length v) l) (v @ [(k, True)])"
proof -
  let ?v = "v @ [(k, True)]" and ?l = "map_set k (length v) l"
  have A: "\<forall>p < length ?v. snd (?v ! p) \<longrightarrow> map_get ?l (fst (?v ! p)) = Some p"
  proof (intro allI impI)
    fix p assume p: "p < length ?v" and a: "snd (?v ! p)"
    show "map_get ?l (fst (?v ! p)) = Some p"
    proof (cases "p < length v")
      case True
      with a have e: "map_get l (fst (v ! p)) = Some p"
        using assms(1) by (simp add: coord_def nth_append)
      with assms(2) have "fst (v ! p) \<noteq> k" by auto
      then show ?thesis using True e by (simp add: nth_append map_get_set_other)
    next
      case False
      with p have "p = length v" by simp
      then show ?thesis by (simp add: map_get_set_same)
    qed
  qed
  have B: "\<forall>k' p. map_get ?l k' = Some p \<longrightarrow> p < length ?v \<and> snd (?v ! p) \<and> fst (?v ! p) = k'"
  proof (intro allI impI)
    fix k' p assume g: "map_get ?l k' = Some p"
    show "p < length ?v \<and> snd (?v ! p) \<and> fst (?v ! p) = k'"
    proof (cases "k' = k")
      case True
      with g have "p = length v" by (simp add: map_get_set_same)
      then show ?thesis using True by simp
    next
      case False
      with g have "map_get l k' = Some p" by (simp add: map_get_set_other)
      then have "p < length v \<and> snd (v ! p) \<and> fst (v ! p) = k'"
        using assms(1) by (simp add: coord_def)
      then show ?thesis by (simp add: nth_append)
    qed
  qed
  show ?thesis unfolding coord_def using A B by blast
qed

lemma coord_idle:
  assumes "coord l v"
  shows "coord l (v @ [(k, False)])"
proof -
  let ?v = "v @ [(k, False)]"
  have A: "\<forall>p < length ?v. snd (?v ! p) \<longrightarrow> map_get l (fst (?v ! p)) = Some p"
  proof (intro allI impI)
    fix p assume p: "p < length ?v" and a: "snd (?v ! p)"
    then have "p < length v" by (cases "p < length v") (auto simp: nth_append)
    then show "map_get l (fst (?v ! p)) = Some p"
      using a assms by (simp add: coord_def nth_append)
  qed
  have B: "\<forall>k' p. map_get l k' = Some p \<longrightarrow> p < length ?v \<and> snd (?v ! p) \<and> fst (?v ! p) = k'"
  proof (intro allI impI)
    fix k' p assume "map_get l k' = Some p"
    then have "p < length v \<and> snd (v ! p) \<and> fst (v ! p) = k'"
      using assms by (simp add: coord_def)
    then show "p < length ?v \<and> snd (?v ! p) \<and> fst (?v ! p) = k'"
      by (simp add: nth_append)
  qed
  show ?thesis unfolding coord_def using A B by blast
qed

lemma coord_end:
  assumes "coord l v" "p < length v" "snd (v ! p)"
  shows "coord (map_delete (fst (v ! p)) l) (v[p := (fst (v ! p), False)])"
proof -
  let ?v = "v[p := (fst (v ! p), False)]" and ?l = "map_delete (fst (v ! p)) l"
  have own: "map_get l (fst (v ! p)) = Some p" using assms by (simp add: coord_def)
  have A: "\<forall>q < length ?v. snd (?v ! q) \<longrightarrow> map_get ?l (fst (?v ! q)) = Some q"
  proof (intro allI impI)
    fix q assume q: "q < length ?v" and a: "snd (?v ! q)"
    then have ne: "q \<noteq> p" using assms(2) by auto
    with q a have e: "map_get l (fst (v ! q)) = Some q" using assms(1) by (simp add: coord_def)
    with own ne have "fst (v ! q) \<noteq> fst (v ! p)" by auto
    then show "map_get ?l (fst (?v ! q)) = Some q"
      using ne e by (simp add: map_get_delete_other)
  qed
  have B: "\<forall>k q. map_get ?l k = Some q \<longrightarrow> q < length ?v \<and> snd (?v ! q) \<and> fst (?v ! q) = k"
  proof (intro allI impI)
    fix k q assume g: "map_get ?l k = Some q"
    then have k: "k \<noteq> fst (v ! p)" by (auto simp: map_get_delete_same)
    with g have "map_get l k = Some q" by (simp add: map_get_delete_other)
    then have f: "q < length v \<and> snd (v ! q) \<and> fst (v ! q) = k"
      using assms(1) by (simp add: coord_def)
    with k have "q \<noteq> p" by auto
    with f show "q < length ?v \<and> snd (?v ! q) \<and> fst (?v ! q) = k" by simp
  qed
  show ?thesis unfolding coord_def using A B by blast
qed

lemma live_start:
  assumes "live l v"
  shows "live (map_set k (length v) l) (v @ [(k, True)])"
  unfolding live_def
proof (intro allI impI)
  fix k' p assume g: "map_get (map_set k (length v) l) k' = Some p"
  show "p < length (v @ [(k, True)]) \<and> snd ((v @ [(k, True)]) ! p)
        \<and> fst ((v @ [(k, True)]) ! p) = k'"
  proof (cases "k' = k")
    case True
    with g have "p = length v" by (simp add: map_get_set_same)
    then show ?thesis using True by simp
  next
    case False
    with g have "map_get l k' = Some p" by (simp add: map_get_set_other)
    then have "p < length v \<and> snd (v ! p) \<and> fst (v ! p) = k'"
      using assms by (simp add: live_def)
    then show ?thesis by (simp add: nth_append)
  qed
qed

lemma live_idle:
  assumes "live l v"
  shows "live l (v @ [(k, False)])"
  unfolding live_def
proof (intro allI impI)
  fix k' p assume "map_get l k' = Some p"
  then have "p < length v \<and> snd (v ! p) \<and> fst (v ! p) = k'"
    using assms by (simp add: live_def)
  then show "p < length (v @ [(k, False)]) \<and> snd ((v @ [(k, False)]) ! p)
        \<and> fst ((v @ [(k, False)]) ! p) = k'"
    by (simp add: nth_append)
qed

lemma live_end:
  assumes "live l v"
  shows "live (map_delete (fst (v ! p)) l) (v[p := (fst (v ! p), False)])"
  unfolding live_def
proof (intro allI impI)
  let ?v = "v[p := (fst (v ! p), False)]"
  fix k q assume g: "map_get (map_delete (fst (v ! p)) l) k = Some q"
  then have k: "k \<noteq> fst (v ! p)" by (auto simp: map_get_delete_same)
  with g have "map_get l k = Some q" by (simp add: map_get_delete_other)
  then have f: "q < length v \<and> snd (v ! q) \<and> fst (v ! q) = k"
    using assms by (simp add: live_def)
  with k have "q \<noteq> p" by auto
  with f show "q < length ?v \<and> snd (?v ! q) \<and> fst (?v ! q) = k" by simp
qed

lemma coord_live: "coord l v \<Longrightarrow> live l v"
  by (simp add: coord_def live_def)

text \<open>The three properties that every attempt keeps.\<close>

lemma coord_kept: "kept_by_attempts coord"
  unfolding kept_by_attempts_def using coord_start coord_idle coord_end by blast

lemma live_kept: "kept_by_attempts live"
  unfolding kept_by_attempts_def using live_start live_idle live_end by blast

lemma distinct_kept: "kept_by_attempts (\<lambda>l v. distinct (map fst l))"
  unfolding kept_by_attempts_def by (simp add: map_set_distinct map_delete_distinct)

lemma kept_start:
  "kept_by_attempts P \<Longrightarrow> P l v \<Longrightarrow> map_get l k = None
   \<Longrightarrow> P (map_set k (length v) l) (v @ [(k, True)])"
  unfolding kept_by_attempts_def by blast

lemma kept_idle: "kept_by_attempts P \<Longrightarrow> P l v \<Longrightarrow> P l (v @ [(k, False)])"
  unfolding kept_by_attempts_def by blast

lemma kept_end:
  "kept_by_attempts P \<Longrightarrow> P l v \<Longrightarrow> p < length v \<Longrightarrow> snd (v ! p)
   \<Longrightarrow> P (map_delete (fst (v ! p)) l) (v[p := (fst (v ! p), False)])"
  unfolding kept_by_attempts_def by blast

lemma loadImage_keeps:
  assumes "kept_by_attempts P" "holds_in P s"
  shows "holds_in P (snd (loadImage api url k s))"
proof (cases "map_get (loading s) (convert_string api url)")
  case (Some p)
  then show ?thesis using assms by (simp add: loadImage_dedup)
next
  case None
  let ?v = "map attempt_view (promises s)"
  have P: "P (loading s) ?v" using assms(2) by (simp add: holds_in_def)
  show ?thesis
  proof (cases "map_get (memoryCache (mem s)) (convert_string api url)")
    case (Some h)
    show ?thesis
      using kept_idle [OF assms(1) P, of "convert_string api url"]
      by (simp add: loadImage_memory_hit [OF None Some] holds_in_def attempt_view_def
          awaiting_def)
  next
    case n: None
    show ?thesis
      using kept_start [OF assms(1) P None]
      by (simp add: loadImage_start [OF None n] holds_in_def attempt_view_def awaiting_def)
  qed
qed

lemma attempt_ends:
  assumes "kept_by_attempts P" "holds_in P s"
    "p < length (promises s)" "awaiting (promises s ! p)"
    "\<not> awaiting ((promises s ! p)\<lparr>stage := st\<rparr>)"
    "loading s' = map_delete (p_key (promises s ! p)) (loading s)"
    "map attempt_view (promises s') = map attempt_view (set_stage p st (promises s))"
  shows "holds_in P s'"
  using assms kept_end [OF assms(1), of "loading s" "map attempt_view (promises s)" p]
  by (simp add: holds_in_def set_stage_view attempt_view_def)

lemma attempt_goes_on:
  assumes "holds_in P s" "p < length (promises s)"
    "awaiting ((promises s ! p)\<lparr>stage := st\<rparr>) = awaiting (promises s ! p)"
    "loading s' = loading s"
    "map attempt_view (promises s') = map attempt_view (set_stage p st (promises s))"
  shows "holds_in P s'"
proof -
  have "(map attempt_view (promises s))[p := (p_key (promises s ! p), awaiting (promises s ! p))]
        = map attempt_view (promises s)"
    using assms(2) by (simp add: list_update_same_conv attempt_view_def)
  then show ?thesis using assms by (simp add: holds_in_def set_stage_view)
qed

lemma on_store_read_keeps:
  assumes "kept_by_attempts P" "holds_in P s"
  shows "holds_in P (on_store_read p outcome s)"
proof (cases "p < length (promises s)")
  case False
  then show ?thesis using assms by (simp add: on_store_read_def)
next
  case True
  show ?thesis
  proof (cases "stage (promises s ! p)")
    case (AwaitStore d)
    then have aw: "awaiting (promises s ! p)" by (simp add: awaiting_def)
    show ?thesis
    proof (cases "getFromIndexedDB d (p_key (promises s ! p)) outcome s")
      case None
      show ?thesis
        by (rule attempt_goes_on [OF assms(2) True, where st = AwaitFetch])
           (simp_all add: on_store_read_def True AwaitStore None awaiting_def)
    next
      case (Some b)
      show ?thesis
        by (rule attempt_ends [OF assms True aw, where st = Idle])
           (simp_all add: on_store_read_def True AwaitStore Some awaiting_def cache_blob_def
              Let_def settle_view del: settle.simps)
    qed
  qed (use assms True in \<open>simp_all add: on_store_read_def\<close>)
qed

lemma on_fetch_done_keeps:
  assumes "kept_by_attempts P" "holds_in P s"
  shows "holds_in P (on_fetch_done p outcome e s)"
proof (cases "p < length (promises s)")
  case False
  then show ?thesis using assms by (simp add: on_fetch_done_def)
next
  case True
  show ?thesis
  proof (cases "stage (promises s ! p)")
    case AwaitFetch
    then have aw: "awaiting (promises s ! p)" by (simp add: awaiting_def)
    show ?thesis
    proof (cases "response_blob outcome")
      case (Inr b)
      show ?thesis
        by (rule attempt_ends [OF assms True aw, where st = Idle])
           (simp_all add: on_fetch_done_def True AwaitFetch Inr awaiting_def cache_blob_def
              storeInIndexedDB_def Let_def settle_view del: settle.simps)
    next
      case (Inl err)
      show ?thesis
      proof (cases "p_attempt (promises s ! p) < MAX_RETRIES")
        case r: True
        show ?thesis
          by (rule attempt_ends [OF assms True aw,
                where st = "AwaitTimer (getRetryDelay (rnd e) (p_attempt (promises s ! p)))"])
             (simp_all add: on_fetch_done_retry [OF True AwaitFetch Inl r] awaiting_def)
      next
        case f: False
        show ?thesis
          by (rule attempt_ends [OF assms True aw, where st = Idle])
             (simp_all add: on_fetch_done_final [OF True AwaitFetch Inl f] awaiting_def settle_view
                del: settle.simps)
      qed
    qed
  qed (use assms True in \<open>simp_all add: on_fetch_done_def\<close>)
qed

lemma on_timer_keeps:
  assumes "kept_by_attempts P" "holds_in P s"
  shows "holds_in P (on_timer api p s)"
proof (cases "p < length (promises s)")
  case False
  then show ?thesis using assms by (simp add: on_timer_def)
next
  case True
  show ?thesis
  proof (cases "stage (promises s ! p)")
    case (AwaitTimer d)
    let ?s1 = "s\<lparr>promises := set_stage p Idle (promises s)\<rparr>"
    have "holds_in P ?s1"
      by (rule attempt_goes_on [OF assms(2) True, where st = Idle])
         (simp_all add: AwaitTimer awaiting_def)
    then have "holds_in P (snd (loadImage api (p_url (promises s ! p))
                 (p_attempt (promises s ! p) + 1) ?s1))"
      by (rule loadImage_keeps [OF assms(1)])
    then show ?thesis
      by (simp add: on_timer_fire [OF True AwaitTimer] Let_def holds_in_def chain_view)
  qed (use assms True in \<open>simp_all add: on_timer_def\<close>)
qed

lemma prefetchBatch_keeps:
  assumes "kept_by_attempts P"
  shows "holds_in P s \<Longrightarrow> holds_in P (snd (prefetchBatch api batch s))"
proof (induction batch arbitrary: s)
  case Nil
  then show ?case by simp
next
  case (Cons url batch)
  obtain p s1 where l: "loadImage api url 0 s = (p, s1)" by (cases "loadImage api url 0 s")
  obtain ps s2 where r: "prefetchBatch api batch s1 = (ps, s2)"
    by (cases "prefetchBatch api batch s1")
  have "holds_in P s1" using loadImage_keeps [OF assms Cons.prems, of api url 0] l by simp
  then have "holds_in P s2" using Cons.IH [of s1] r by simp
  then show ?case by (simp add: l r)
qed

lemma retryImage_keeps:
  assumes "kept_by_attempts P" "holds_in P s"
  shows "holds_in P (retryImage api url s)"
proof -
  have "holds_in P (s\<lparr>failed := map_delete url (failed s)\<rparr>)"
    using assms(2) by (simp add: holds_in_def)
  then show ?thesis unfolding retryImage_def by (rule loadImage_keeps [OF assms(1)])
qed

text \<open>
  Every step but \<^verbatim>\<open>clearCache\<close> keeps such a property; \<^verbatim>\<open>clearCache\<close> keeps it when it
  holds of the empty map.
\<close>

lemma step_keeps:
  assumes "kept_by_attempts P" "holds_in P s"
    "\<And>ok. ev = ClearCache ok \<Longrightarrow> P [] (map attempt_view (promises s))"
  shows "holds_in P (step api ev s)"
proof (cases ev)
  case (InitDone outcome)
  then show ?thesis using assms(2) by (cases outcome) (simp_all add: holds_in_def)
next
  case (Cleanup t ok)
  then show ?thesis using assms(2) by (simp add: holds_in_def cleanupIndexedDB_def)
next
  case (ClearCache ok)
  then show ?thesis using assms(3) [of ok] by (simp add: holds_in_def clearCache_def Let_def)
qed (simp_all add: assms(1,2) loadImage_keeps on_store_read_keeps on_fetch_done_keeps
       on_timer_keeps prefetchBatch_keeps retryImage_keeps)

lemma run_keeps:
  assumes "kept_by_attempts P" "\<And>v. P [] v"
  shows "holds_in P s \<Longrightarrow> holds_in P (run api evs s)"
  unfolding run_def
  by (induction evs arbitrary: s) (simp_all add: step_keeps [OF assms(1)] assms(2))

lemma init_holds: "P [] [] \<Longrightarrow> holds_in P init_loader"
  by (simp add: holds_in_def init_loader_def)

lemma run_live: "holds_in live (run api evs init_loader)"
  by (rule run_keeps [OF live_kept]) (simp_all add: live_def map_get_def init_holds)

lemma run_distinct: "distinct (map fst (loading (run api evs init_loader)))"
  using run_keeps [OF distinct_kept, of init_loader api evs] by (simp add: holds_in_def init_loader_def)

text \<open>
  The attempts in progress are exactly the entries as long as \<^verbatim>\<open>clearCache\<close> is not
  called while an attempt is in progress.
\<close>

lemma coord_no_attempt: "\<not> list_ex awaiting ps \<Longrightarrow> coord [] (map attempt_view ps)"
  by (auto simp: coord_def map_get_def list_ex_iff attempt_view_def)

lemma run_coordinated:
  "quiet_clears api evs s \<Longrightarrow> coordinated s \<Longrightarrow> coordinated (run api evs s)"
proof (induction evs arbitrary: s)
  case Nil
  then show ?case by (simp add: run_def)
next
  case (Cons ev evs)
  have q: "quiet_clears api evs (step api ev s)" using Cons.prems(1) by (cases ev) simp_all
  have c: "holds_in coord s" using Cons.prems(2) by (simp add: coordinated_def holds_in_def)
  have "holds_in coord (step api ev s)"
  proof (rule step_keeps [OF coord_kept c])
    fix ok assume "ev = ClearCache ok"
    with Cons.prems(1) have "\<not> list_ex awaiting (promises s)" by simp
    then show "coord [] (map attempt_view (promises s))" by (rule coord_no_attempt)
  qed
  then have "coordinated (step api ev s)" by (simp add: coordinated_def holds_in_def)
  from Cons.IH [OF q this] show ?case by (simp add: run_def)
qed

lemma init_coordinated: "coordinated init_loader"
  by (simp add: coordinated_def coord_def init_loader_def map_get_def)



text \<open>A promise whose attempt is in progress is pending.\<close>

lemma settle_pending:
  "pending_attempts ps \<Longrightarrow> \<forall>p \<in> set work. p < length ps \<longrightarrow> \<not> awaiting (ps ! p)
   \<Longrightarrow> pending_attempts (settle work out ps)"
proof (induction work out ps rule: settle.induct)
  case (1 out ps)
  then show ?case by simp
next
  case (2 p work out ps)
  show ?case
  proof (cases "p < length ps \<and> status (ps ! p) = Pending \<and> out \<noteq> Pending")
    case False
    have "pending_attempts (settle work out ps)"
      using "2.IH"(2) [OF False "2.prems"(1)] "2.prems"(2) by simp
    then show ?thesis using False by auto
  next
    case True
    let ?ps = "ps[p := (ps ! p)\<lparr>status := out\<rparr>]"
    have na: "\<not> awaiting (ps ! p)" using "2.prems"(2) True by simp
    have aw: "awaiting (?ps ! i) = awaiting (ps ! i)" if "i < length ps" for i
      using that by (cases "i = p") (simp_all add: awaiting_def)
    have re: "reactions (?ps ! i) = reactions (ps ! i)" if "i < length ps" for i
      using that by (cases "i = p") simp_all
    have st: "status (?ps ! i) = status (ps ! i)" if "i < length ps" "i \<noteq> p" for i
      using that by simp
    have a: "\<forall>i < length ps. awaiting (ps ! i) \<longrightarrow> status (ps ! i) = Pending"
      and b: "\<forall>i < length ps. \<forall>q \<in> set (reactions (ps ! i)). q < length ps \<and> \<not> awaiting (ps ! q)"
      using "2.prems"(1) by (simp_all add: pending_attempts_def)
    have a': "\<forall>i < length ?ps. awaiting (?ps ! i) \<longrightarrow> status (?ps ! i) = Pending"
    proof (intro allI impI)
      fix i assume i: "i < length ?ps" and w: "awaiting (?ps ! i)"
      then have w': "awaiting (ps ! i)" using aw [of i] by simp
      with na have "i \<noteq> p" by auto
      then show "status (?ps ! i) = Pending" using a i w' st [of i] by simp
    qed
    have b': "\<forall>i < length ?ps. \<forall>q \<in> set (reactions (?ps ! i)). q < length ?ps \<and> \<not> awaiting (?ps ! q)"
    proof (intro allI impI ballI)
      fix i q assume i: "i < length ?ps" and q: "q \<in> set (reactions (?ps ! i))"
      then have "q \<in> set (reactions (ps ! i))" using re [of i] by simp
      then have "q < length ps \<and> \<not> awaiting (ps ! q)" using b i by simp
      then show "q < length ?ps \<and> \<not> awaiting (?ps ! q)" using aw [of q] by simp
    qed
    have inv: "pending_attempts ?ps" unfolding pending_attempts_def using a' b' by blast
    have w: "\<forall>x \<in> set (work @ reactions (ps ! p)). x < length ?ps \<longrightarrow> \<not> awaiting (?ps ! x)"
    proof (intro ballI impI)
      fix x assume x: "x \<in> set (work @ reactions (ps ! p))" and l: "x < length ?ps"
      have "\<not> awaiting (ps ! x)"
      proof (cases "x \<in> set work")
        case True
        then show ?thesis using "2.prems"(2) l by simp
      next
        case False
        with x have "x \<in> set (reactions (ps ! p))" by simp
        then show ?thesis using b True by blast
      qed
      then show "\<not> awaiting (?ps ! x)" using aw [of x] l by simp
    qed
    show ?thesis using "2.IH"(1) [OF True inv w] True by simp
  qed
qed

lemma set_stage_pending:
  assumes "pending_attempts ps" "awaiting ((ps ! p)\<lparr>stage := st\<rparr>) \<longrightarrow> awaiting (ps ! p)"
  shows "pending_attempts (set_stage p st ps)"
proof (cases "p < length ps")
  case False
  then show ?thesis using assms(1) by (simp add: set_stage_def list_update_beyond)
next
  case True
  let ?ps = "set_stage p st ps"
  have a: "\<forall>i < length ps. awaiting (ps ! i) \<longrightarrow> status (ps ! i) = Pending"
    and b: "\<forall>i < length ps. \<forall>q \<in> set (reactions (ps ! i)). q < length ps \<and> \<not> awaiting (ps ! q)"
    using assms(1) by (simp_all add: pending_attempts_def)
  have aw: "awaiting (?ps ! i) \<longrightarrow> awaiting (ps ! i)" if "i < length ps" for i
    using that assms(2) by (cases "i = p") (simp_all add: set_stage_def)
  have re: "reactions (?ps ! i) = reactions (ps ! i)" "status (?ps ! i) = status (ps ! i)"
    if "i < length ps" for i
    using that by (cases "i = p"; simp add: set_stage_def)+
  have l: "length ?ps = length ps" by (simp add: set_stage_def)
  have a': "\<forall>i < length ?ps. awaiting (?ps ! i) \<longrightarrow> status (?ps ! i) = Pending"
    using a aw re(2) l by auto
  have b': "\<forall>i < length ?ps. \<forall>q \<in> set (reactions (?ps ! i)). q < length ?ps \<and> \<not> awaiting (?ps ! q)"
  proof (intro allI impI ballI)
    fix i q assume i: "i < length ?ps" and q: "q \<in> set (reactions (?ps ! i))"
    then have "q \<in> set (reactions (ps ! i))" using re(1) [of i] l by simp
    then have "q < length ps \<and> \<not> awaiting (ps ! q)" using b i l by simp
    then show "q < length ?ps \<and> \<not> awaiting (?ps ! q)" using aw [of q] l by auto
  qed
  show ?thesis unfolding pending_attempts_def using a' b' by blast
qed

lemma append_pending:
  assumes "pending_attempts ps" "reactions r = []" "awaiting r \<longrightarrow> status r = Pending"
  shows "pending_attempts (ps @ [r])"
proof -
  have a: "\<forall>i < length ps. awaiting (ps ! i) \<longrightarrow> status (ps ! i) = Pending"
    and b: "\<forall>i < length ps. \<forall>q \<in> set (reactions (ps ! i)). q < length ps \<and> \<not> awaiting (ps ! q)"
    using assms(1) by (simp_all add: pending_attempts_def)
  have a': "\<forall>i < length (ps @ [r]). awaiting ((ps @ [r]) ! i) \<longrightarrow> status ((ps @ [r]) ! i) = Pending"
    using a assms(3) by (auto simp: nth_append less_Suc_eq)
  have b': "\<forall>i < length (ps @ [r]). \<forall>q \<in> set (reactions ((ps @ [r]) ! i)).
              q < length (ps @ [r]) \<and> \<not> awaiting ((ps @ [r]) ! q)"
  proof (intro allI impI ballI)
    fix i q assume i: "i < length (ps @ [r])" and q: "q \<in> set (reactions ((ps @ [r]) ! i))"
    have il: "i < length ps" using i q assms(2) by (cases "i < length ps") (auto simp: nth_append)
    with q have "q \<in> set (reactions (ps ! i))" by (simp add: nth_append)
    then have "q < length ps \<and> \<not> awaiting (ps ! q)" using b il by simp
    then show "q < length (ps @ [r]) \<and> \<not> awaiting ((ps @ [r]) ! q)" by (simp add: nth_append)
  qed
  show ?thesis unfolding pending_attempts_def using a' b' by blast
qed

lemma chain_pending:
  assumes "pending_attempts ps" "parent < length ps" "\<not> awaiting (ps ! parent)"
  shows "pending_attempts (chain child parent ps)"
proof (cases "child < length ps")
  case False
  then show ?thesis using assms(1) by (simp add: chain_def)
next
  case True
  show ?thesis
  proof (cases "status (ps ! child) = Pending")
    case False
    have "pending_attempts (settle [parent] (status (ps ! child)) ps)"
      by (rule settle_pending [OF assms(1)]) (simp add: assms(3))
    then show ?thesis using True False by (cases "status (ps ! child)") (simp_all add: chain_def)
  next
    case p: True
    let ?ps = "ps[child := (ps ! child)\<lparr>reactions := reactions (ps ! child) @ [parent]\<rparr>]"
    have a: "\<forall>i < length ps. awaiting (ps ! i) \<longrightarrow> status (ps ! i) = Pending"
      and b: "\<forall>i < length ps. \<forall>q \<in> set (reactions (ps ! i)). q < length ps \<and> \<not> awaiting (ps ! q)"
      using assms(1) by (simp_all add: pending_attempts_def)
    have aw: "awaiting (?ps ! i) = awaiting (ps ! i)" "status (?ps ! i) = status (ps ! i)"
      if "i < length ps" for i
      using that by (cases "i = child"; simp add: awaiting_def)+
    have re: "set (reactions (?ps ! i)) \<subseteq> insert parent (set (reactions (ps ! i)))"
      if "i < length ps" for i
      using that by (cases "i = child") auto
    have a': "\<forall>i < length ?ps. awaiting (?ps ! i) \<longrightarrow> status (?ps ! i) = Pending"
      using a aw by simp
    have b': "\<forall>i < length ?ps. \<forall>q \<in> set (reactions (?ps ! i)). q < length ?ps \<and> \<not> awaiting (?ps ! q)"
    proof (intro allI impI ballI)
      fix i q assume i: "i < length ?ps" and q: "q \<in> set (reactions (?ps ! i))"
      then have "q = parent \<or> q \<in> set (reactions (ps ! i))" using re [of i] by auto
      then have "q < length ps \<and> \<not> awaiting (ps ! q)" using b i assms(2,3) by auto
      then show "q < length ?ps \<and> \<not> awaiting (?ps ! q)" using aw(1) [of q] by simp
    qed
    have "pending_attempts ?ps" unfolding pending_attempts_def using a' b' by blast
    then show ?thesis using True p by (simp add: chain_def)
  qed
qed

lemma loadImage_promises:
  "promises (snd (loadImage api url k s)) = promises s
   \<or> (\<exists>r. promises (snd (loadImage api url k s)) = promises s @ [r] \<and> reactions r = []
          \<and> (awaiting r \<longrightarrow> status r = Pending))"
proof (cases "map_get (loading s) (convert_string api url)")
  case (Some p)
  then show ?thesis by (simp add: loadImage_dedup)
next
  case None
  show ?thesis
  proof (cases "map_get (memoryCache (mem s)) (convert_string api url)")
    case (Some h)
    show ?thesis by (simp add: loadImage_memory_hit [OF None Some] awaiting_def)
  next
    case n: None
    show ?thesis by (simp add: loadImage_start [OF None n])
  qed
qed

lemma loadImage_pending:
  "pending_attempts (promises s) \<Longrightarrow> pending_attempts (promises (snd (loadImage api url k s)))"
  using loadImage_promises [of api url k s] by (auto simp: append_pending)

lemma on_store_read_pending:
  assumes "pending_attempts (promises s)"
  shows "pending_attempts (promises (on_store_read p outcome s))"
proof (cases "p < length (promises s)")
  case False
  then show ?thesis using assms by (simp add: on_store_read_def)
next
  case True
  show ?thesis
  proof (cases "stage (promises s ! p)")
    case (AwaitStore d)
    show ?thesis
    proof (cases "getFromIndexedDB d (p_key (promises s ! p)) outcome s")
      case None
      have "pending_attempts (set_stage p AwaitFetch (promises s))"
        by (rule set_stage_pending [OF assms]) (simp add: AwaitStore awaiting_def)
      then show ?thesis by (simp add: on_store_read_def True AwaitStore None)
    next
      case (Some b)
      have i: "pending_attempts (set_stage p Idle (promises s))"
        by (rule set_stage_pending [OF assms]) (simp add: awaiting_def)
      have "pending_attempts (settle [p] out (set_stage p Idle (promises s)))" for out
        by (rule settle_pending [OF i]) (simp add: set_stage_def awaiting_def)
      then show ?thesis
        by (simp add: on_store_read_def True AwaitStore Some cache_blob_def Let_def
            del: settle.simps)
    qed
  qed (use assms True in \<open>simp_all add: on_store_read_def\<close>)
qed

lemma on_fetch_done_pending:
  assumes "pending_attempts (promises s)"
  shows "pending_attempts (promises (on_fetch_done p outcome e s))"
proof (cases "p < length (promises s)")
  case False
  then show ?thesis using assms by (simp add: on_fetch_done_def)
next
  case True
  show ?thesis
  proof (cases "stage (promises s ! p)")
    case AwaitFetch
    have i: "pending_attempts (set_stage p Idle (promises s))"
      by (rule set_stage_pending [OF assms]) (simp add: awaiting_def)
    have st: "pending_attempts (settle [p] out (set_stage p Idle (promises s)))" for out
      by (rule settle_pending [OF i]) (simp add: set_stage_def awaiting_def)
    show ?thesis
    proof (cases "response_blob outcome")
      case (Inr b)
      show ?thesis
        using st
        by (simp add: on_fetch_done_def True AwaitFetch Inr cache_blob_def
            storeInIndexedDB_def Let_def del: settle.simps)
    next
      case (Inl err)
      show ?thesis
      proof (cases "p_attempt (promises s ! p) < MAX_RETRIES")
        case r: True
        have "pending_attempts (set_stage p
                (AwaitTimer (getRetryDelay (rnd e) (p_attempt (promises s ! p)))) (promises s))"
          by (rule set_stage_pending [OF assms]) (simp add: awaiting_def)
        then show ?thesis by (simp add: on_fetch_done_retry [OF True AwaitFetch Inl r])
      next
        case f: False
        show ?thesis
          using st by (simp add: on_fetch_done_final [OF True AwaitFetch Inl f] del: settle.simps)
      qed
    qed
  qed (use assms True in \<open>simp_all add: on_fetch_done_def\<close>)
qed

lemma on_timer_pending:
  assumes "pending_attempts (promises s)"
  shows "pending_attempts (promises (on_timer api p s))"
proof (cases "p < length (promises s)")
  case False
  then show ?thesis using assms by (simp add: on_timer_def)
next
  case True
  show ?thesis
  proof (cases "stage (promises s ! p)")
    case (AwaitTimer d)
    let ?s1 = "s\<lparr>promises := set_stage p Idle (promises s)\<rparr>"
    let ?r = "loadImage api (p_url (promises s ! p)) (p_attempt (promises s ! p) + 1) ?s1"
    have i: "pending_attempts (promises ?s1)"
      using set_stage_pending [OF assms, where p = p and st = Idle] by (simp add: awaiting_def)
    have l: "pending_attempts (promises (snd ?r))" by (rule loadImage_pending [OF i])
    have n: "p < length (promises (snd ?r)) \<and> \<not> awaiting (promises (snd ?r) ! p)"
      using loadImage_promises [of api "p_url (promises s ! p)" "p_attempt (promises s ! p) + 1" ?s1]
        True
      by (auto simp: set_stage_def awaiting_def nth_append)
    have "pending_attempts (chain (fst ?r) p (promises (snd ?r)))"
      by (rule chain_pending [OF l]) (use n in auto)
    then show ?thesis by (simp add: on_timer_fire [OF True AwaitTimer] Let_def)
  qed (use assms True in \<open>simp_all add: on_timer_def\<close>)
qed

lemma prefetchBatch_pending:
  "pending_attempts (promises s) \<Longrightarrow> pending_attempts (promises (snd (prefetchBatch api batch s)))"
proof (induction batch arbitrary: s)
  case Nil
  then show ?case by simp
next
  case (Cons url batch)
  obtain p s1 where l: "loadImage api url 0 s = (p, s1)" by (cases "loadImage api url 0 s")
  obtain ps s2 where r: "prefetchBatch api batch s1 = (ps, s2)"
    by (cases "prefetchBatch api batch s1")
  have "pending_attempts (promises s1)" using loadImage_pending [OF Cons.prems, of api url 0] l by simp
  then have "pending_attempts (promises s2)" using Cons.IH [of s1] r by simp
  then show ?case by (simp add: l r)
qed

lemma step_pending:
  assumes "pending_attempts (promises s)"
  shows "pending_attempts (promises (step api ev s))"
proof (cases ev)
  case (InitDone outcome)
  then show ?thesis using assms by (cases outcome) simp_all
next
  case (Retry url)
  have "pending_attempts (promises (s\<lparr>failed := map_delete url (failed s)\<rparr>))"
    using assms by simp
  then show ?thesis unfolding Retry step.simps retryImage_def by (rule loadImage_pending)
qed (simp_all add: assms loadImage_pending on_store_read_pending on_fetch_done_pending
       on_timer_pending prefetchBatch_pending cleanupIndexedDB_def clearCache_def Let_def)

lemma run_pending: "pending_attempts (promises (run api evs init_loader))"
proof -
  have "pending_attempts (promises s) \<Longrightarrow> pending_attempts (promises (run api evs s))" for s
    unfolding run_def by (induction evs arbitrary: s) (simp_all add: step_pending)
  then show ?thesis by (simp add: pending_attempts_def init_loader_def)
qed

text \<open>What the two invariants say of an entry and of an attempt.\<close>

lemma live_entry:
  assumes "holds_in live s" "map_get (loading s) k = Some r"
  shows "in_progress s r \<and> p_key (promises s ! r) = k"
proof -
  let ?v = "map attempt_view (promises s)"
  have "r < length ?v \<and> snd (?v ! r) \<and> fst (?v ! r) = k"
    using assms unfolding holds_in_def live_def by blast
  then show ?thesis by (auto simp: in_progress_def attempt_view_def)
qed

lemma coordinated_attempt:
  assumes "coordinated s" "in_progress s r"
  shows "map_get (loading s) (p_key (promises s ! r)) = Some r"
proof -
  let ?v = "map attempt_view (promises s)"
  have c: "coord (loading s) ?v" using assms(1) by (simp add: coordinated_def)
  have "r < length ?v" "snd (?v ! r)" "fst (?v ! r) = p_key (promises s ! r)"
    using assms(2) by (simp_all add: in_progress_def attempt_view_def)
  then show ?thesis using c unfolding coord_def by metis
qed

lemma attempt_pending:
  "pending_attempts (promises s) \<Longrightarrow> in_progress s r \<Longrightarrow> status (promises s ! r) = Pending"
  by (simp add: pending_attempts_def in_progress_def)

text \<open>The end of an attempt.\<close>

lemma on_fetch_done_drops_entry:
  assumes "p < length (promises s)" "stage (promises s ! p) = AwaitFetch"
  shows "map_get (loading (on_fetch_done p outcome e s)) (p_key (promises s ! p)) = None"
proof (cases "response_blob outcome")
  case (Inr b)
  then show ?thesis
    using assms
    by (simp add: on_fetch_done_def cache_blob_def storeInIndexedDB_def Let_def
        map_get_delete_same del: settle.simps)
next
  case (Inl err)
  then show ?thesis
    using assms on_fetch_done_retry [OF assms Inl, of e] on_fetch_done_final [OF assms Inl, of e]
    by (cases "p_attempt (promises s ! p) < MAX_RETRIES") (simp_all add: map_get_delete_same)
qed

lemma on_fetch_done_ends:
  assumes "p < length (promises s)" "stage (promises s ! p) = AwaitFetch"
  shows "\<not> in_progress (on_fetch_done p outcome e s) p"
proof (cases "response_blob outcome")
  case (Inr b)
  then show ?thesis
    using assms
    by (simp add: on_fetch_done_def cache_blob_def storeInIndexedDB_def Let_def in_progress_def
        awaiting_def settle_stage settle_length set_stage_def del: settle.simps)
next
  case (Inl err)
  then show ?thesis
    using assms on_fetch_done_retry [OF assms Inl, of e] on_fetch_done_final [OF assms Inl, of e]
    by (cases "p_attempt (promises s ! p) < MAX_RETRIES")
       (simp_all add: in_progress_def awaiting_def settle_stage settle_length set_stage_def
          del: settle.simps)
qed

lemma on_store_read_goes_on:
  assumes "p < length (promises s)" "stage (promises s ! p) = AwaitStore d"
    "getFromIndexedDB d (p_key (promises s ! p)) r s = None"
  shows "loading (on_store_read p r s) = loading s \<and> in_progress (on_store_read p r s) p"
  using assms
  by (simp add: on_store_read_miss [OF assms] in_progress_def awaiting_def set_stage_def)

lemma on_store_read_ends:
  assumes "p < length (promises s)" "stage (promises s ! p) = AwaitStore d"
    "getFromIndexedDB d (p_key (promises s ! p)) r s \<noteq> None"
  shows "map_get (loading (on_store_read p r s)) (p_key (promises s ! p)) = None
         \<and> \<not> in_progress (on_store_read p r s) p"
proof -
  from assms(3) obtain b where b: "getFromIndexedDB d (p_key (promises s ! p)) r s = Some b"
    by auto
  show ?thesis
    using assms(1,2)
    by (simp add: on_store_read_def b cache_blob_def Let_def map_get_delete_same in_progress_def
        awaiting_def settle_stage settle_length set_stage_def del: settle.simps)
qed

text \<open>A settled promise stays as it is, and a pending one takes the outcome it is settled with.\<close>

lemma settle_settled:
  "p < length ps \<Longrightarrow> status (ps ! p) \<noteq> Pending
   \<Longrightarrow> status (settle work out ps ! p) = status (ps ! p)"
proof (induction work out ps rule: settle.induct)
  case (1 out ps)
  then show ?case by simp
next
  case (2 q work out ps)
  show ?case
  proof (cases "q < length ps \<and> status (ps ! q) = Pending \<and> out \<noteq> Pending")
    case True
    then have ne: "q \<noteq> p" using "2.prems" by auto
    have "status (settle (work @ reactions (ps ! q)) out (ps[q := (ps ! q)\<lparr>status := out\<rparr>]) ! p)
          = status ((ps[q := (ps ! q)\<lparr>status := out\<rparr>]) ! p)"
      by (rule "2.IH"(1) [OF True]) (use "2.prems" ne in simp_all)
    then show ?thesis using True ne by simp
  next
    case False
    then show ?thesis using "2.IH"(2) [OF False "2.prems"] by auto
  qed
qed

lemma settle_first:
  assumes "p < length ps" "status (ps ! p) = Pending" "out \<noteq> Pending"
  shows "status (settle (p # work) out ps ! p) = out"
proof -
  have "status (settle (work @ reactions (ps ! p)) out (ps[p := (ps ! p)\<lparr>status := out\<rparr>]) ! p)
        = status ((ps[p := (ps ! p)\<lparr>status := out\<rparr>]) ! p)"
    by (rule settle_settled) (use assms in simp_all)
  then show ?thesis using assms by simp
qed

text \<open>The retry timer fires: the three things \<^verbatim>\<open>loadImage\<close> can find.\<close>

lemma on_timer_starts:
  assumes "p < length (promises s)" "stage (promises s ! p) = AwaitTimer d"
    "map_get (loading s) (convert_string api (p_url (promises s ! p))) = None"
    "map_get (memoryCache (mem s)) (convert_string api (p_url (promises s ! p))) = None"
  shows "on_timer api p s =
    s\<lparr>promises := set_stage p Idle (promises s) @
         [\<lparr>status = Pending, reactions = [p], p_url = p_url (promises s ! p),
           p_key = convert_string api (p_url (promises s ! p)),
           p_attempt = p_attempt (promises s ! p) + 1, stage = AwaitStore (db s)\<rparr>],
      loading := map_set (convert_string api (p_url (promises s ! p))) (length (promises s))
                   (loading s)\<rparr>"
proof -
  let ?s1 = "s\<lparr>promises := set_stage p Idle (promises s)\<rparr>"
  have l: "length (set_stage p Idle (promises s)) = length (promises s)"
    by (simp add: set_stage_def)
  show ?thesis
    using assms
    by (simp add: on_timer_fire [OF assms(1,2)] loadImage_start [of ?s1] Let_def chain_def l
        nth_append list_update_append)
qed

lemma on_timer_joins:
  assumes "p < length (promises s)" "stage (promises s ! p) = AwaitTimer d"
    "map_get (loading s) (convert_string api (p_url (promises s ! p))) = Some c"
    "c < length (promises s)" "status (promises s ! c) = Pending"
  shows "on_timer api p s =
    s\<lparr>promises := (set_stage p Idle (promises s))
         [c := (set_stage p Idle (promises s) ! c)
                 \<lparr>reactions := reactions (set_stage p Idle (promises s) ! c) @ [p]\<rparr>]\<rparr>"
proof -
  let ?s1 = "s\<lparr>promises := set_stage p Idle (promises s)\<rparr>"
  have st: "status (set_stage p Idle (promises s) ! c) = Pending"
    using assms(1,4,5) by (cases "c = p") (simp_all add: set_stage_def)
  have l: "length (set_stage p Idle (promises s)) = length (promises s)"
    by (simp add: set_stage_def)
  have d: "loadImage api (p_url (promises s ! p)) (p_attempt (promises s ! p) + 1) ?s1 = (c, ?s1)"
    by (rule loadImage_dedup) (simp add: assms(3))
  show ?thesis
    unfolding on_timer_fire [OF assms(1,2)] d Let_def
    using assms(4) st by (simp add: chain_def l)
qed

lemma on_timer_cached:
  assumes "p < length (promises s)" "stage (promises s ! p) = AwaitTimer d"
    "map_get (loading s) (convert_string api (p_url (promises s ! p))) = None"
    "map_get (memoryCache (mem s)) (convert_string api (p_url (promises s ! p))) = Some h"
    "status (promises s ! p) = Pending"
  shows "loading (on_timer api p s) = loading s \<and> fetches (on_timer api p s) = fetches s
       \<and> status (promises (on_timer api p s) ! p) = Fulfilled h"
proof -
  let ?s1 = "s\<lparr>promises := set_stage p Idle (promises s)\<rparr>"
  let ?new = "\<lparr>status = Fulfilled h, reactions = [], p_url = p_url (promises s ! p),
      p_key = convert_string api (p_url (promises s ! p)),
      p_attempt = p_attempt (promises s ! p) + 1, stage = Idle\<rparr>"
  let ?ps = "set_stage p Idle (promises s) @ [?new]"
  have l: "length (set_stage p Idle (promises s)) = length (promises s)"
    by (simp add: set_stage_def)
  have f: "status (settle [p] (Fulfilled h) ?ps ! p) = Fulfilled h"
    by (rule settle_first) (use assms(1,5) in \<open>simp_all add: set_stage_def nth_append\<close>)
  have "on_timer api p s =
        (snd (loadImage api (p_url (promises s ! p)) (p_attempt (promises s ! p) + 1) ?s1))
          \<lparr>promises := settle [p] (Fulfilled h) ?ps\<rparr>"
    using assms(3,4)
    by (simp add: on_timer_fire [OF assms(1,2)] loadImage_memory_hit [of ?s1] Let_def chain_def l
        nth_append del: settle.simps)
  then show ?thesis
    using assms(3,4) f by (simp add: loadImage_memory_hit [of ?s1] del: settle.simps)
qed

text \<open>
  Claim C1, as amended. In every state \<open>s\<close> the loader reaches from its initial state by the
  events above, whatever they are:

  \<^item> the in-flight map has at most one entry per key;
  \<^item> while a key has an entry, every \<^verbatim>\<open>loadImage\<close> of the key returns the promise of the
    entry and changes nothing, so it starts no store read and no fetch; that promise is
    pending and its attempt (store read or fetch) is in progress;
  \<^item> a \<^verbatim>\<open>loadImage\<close> of a key with neither an entry nor a cached handle creates the entry,
    with a new promise whose attempt is in progress;
  \<^item> if \<^verbatim>\<open>clearCache\<close> has not been called while an attempt was in progress, every attempt
    in progress is the one of the entry of its key, so no two attempts for one key are in
    progress together;
  \<^item> the entry lasts for one attempt: it is removed, and the attempt is over, when the fetch
    ends, whether it succeeds, fails for good, or fails and a retry is scheduled, and when
    the store read finds the image; a store read that misses keeps the entry and goes on to
    the fetch;
  \<^item> when the retry timer of a promise fires, \<^verbatim>\<open>loadImage\<close> runs again for its URL with the
    next attempt number: if the key has neither an entry nor a cached handle, a new entry is
    made with a new promise, in progress, that settles the earlier promise; if another load
    holds the entry of the key, the earlier promise is attached to the promise of that
    entry and nothing else changes, no attempt being started; if the key is cached, the
    earlier promise, when pending, is fulfilled with the cached handle;
  \<^item> \<^verbatim>\<open>clearCache\<close> removes every entry, whatever is in progress.
\<close>

theorem in_flight_per_attempt:
  "(let s = run api evs init_loader; key = convert_string api url
    in distinct (map fst (loading s))
     \<and> (map_get (loading s) key = Some p \<longrightarrow>
          loadImage api url k s = (p, s) \<and> in_progress s p \<and> p_key (promises s ! p) = key
          \<and> status (promises s ! p) = Pending)
     \<and> (map_get (loading s) key = None \<and> map_get (memoryCache (mem s)) key = None \<longrightarrow>
          fst (loadImage api url k s) = length (promises s)
          \<and> map_get (loading (snd (loadImage api url k s))) key = Some (length (promises s))
          \<and> in_progress (snd (loadImage api url k s)) (length (promises s)))
     \<and> (quiet_clears api evs init_loader \<longrightarrow>
          (in_progress s p \<longrightarrow> map_get (loading s) (p_key (promises s ! p)) = Some p)
          \<and> (in_progress s p \<and> in_progress s q
               \<and> p_key (promises s ! p) = p_key (promises s ! q) \<longrightarrow> p = q))
     \<and> (p < length (promises s) \<and> stage (promises s ! p) = AwaitFetch \<longrightarrow>
          map_get (loading (on_fetch_done p outcome e s)) (p_key (promises s ! p)) = None
          \<and> \<not> in_progress (on_fetch_done p outcome e s) p)
     \<and> (p < length (promises s) \<and> stage (promises s ! p) = AwaitStore d \<longrightarrow>
          (getFromIndexedDB d (p_key (promises s ! p)) r s = None \<longrightarrow>
             loading (on_store_read p r s) = loading s \<and> in_progress (on_store_read p r s) p)
          \<and> (getFromIndexedDB d (p_key (promises s ! p)) r s \<noteq> None \<longrightarrow>
             map_get (loading (on_store_read p r s)) (p_key (promises s ! p)) = None
             \<and> \<not> in_progress (on_store_read p r s) p))
     \<and> (p < length (promises s) \<and> stage (promises s ! p) = AwaitTimer dl \<longrightarrow>
          (let key' = convert_string api (p_url (promises s ! p));
               n = length (promises s);
               s' = on_timer api p s
           in (map_get (loading s) key' = None \<and> map_get (memoryCache (mem s)) key' = None \<longrightarrow>
                 map_get (loading s') key' = Some n \<and> in_progress s' n
                 \<and> p_attempt (promises s' ! n) = p_attempt (promises s ! p) + 1
                 \<and> reactions (promises s' ! n) = [p])
            \<and> (map_get (loading s) key' = Some c \<longrightarrow>
                 loading s' = loading s \<and> length (promises s') = n \<and> fetches s' = fetches s
                 \<and> reactions (promises s' ! c) = reactions (promises s ! c) @ [p])
            \<and> (map_get (loading s) key' = None \<and> map_get (memoryCache (mem s)) key' = Some h
                \<and> status (promises s ! p) = Pending \<longrightarrow>
                 loading s' = loading s \<and> fetches s' = fetches s
                 \<and> status (promises s' ! p) = Fulfilled h)))
     \<and> loading (snd (clearCache ok s)) = [])"
proof -
  let ?s = "run api evs init_loader"
  let ?key = "convert_string api url"
  have lv: "holds_in live ?s" by (rule run_live)
  have pd: "pending_attempts (promises ?s)" by (rule run_pending)
  have Z: "distinct (map fst (loading ?s))" by (rule run_distinct)
  have A: "map_get (loading ?s) ?key = Some p \<longrightarrow>
          loadImage api url k ?s = (p, ?s) \<and> in_progress ?s p \<and> p_key (promises ?s ! p) = ?key
          \<and> status (promises ?s ! p) = Pending"
    using live_entry [OF lv, of ?key p] attempt_pending [OF pd, of p]
    by (simp add: loadImage_dedup)
  have B: "map_get (loading ?s) ?key = None \<and> map_get (memoryCache (mem ?s)) ?key = None \<longrightarrow>
          fst (loadImage api url k ?s) = length (promises ?s)
          \<and> map_get (loading (snd (loadImage api url k ?s))) ?key = Some (length (promises ?s))
          \<and> in_progress (snd (loadImage api url k ?s)) (length (promises ?s))"
    by (auto simp: loadImage_start map_get_set_same in_progress_def awaiting_def)
  have C: "quiet_clears api evs init_loader \<longrightarrow>
          (in_progress ?s p \<longrightarrow> map_get (loading ?s) (p_key (promises ?s ! p)) = Some p)
          \<and> (in_progress ?s p \<and> in_progress ?s q
               \<and> p_key (promises ?s ! p) = p_key (promises ?s ! q) \<longrightarrow> p = q)"
  proof
    assume "quiet_clears api evs init_loader"
    then have c: "coordinated ?s" by (rule run_coordinated [OF _ init_coordinated])
    have o: "in_progress ?s x \<longrightarrow> map_get (loading ?s) (p_key (promises ?s ! x)) = Some x" for x
      using coordinated_attempt [OF c, of x] by simp
    show "(in_progress ?s p \<longrightarrow> map_get (loading ?s) (p_key (promises ?s ! p)) = Some p)
          \<and> (in_progress ?s p \<and> in_progress ?s q
               \<and> p_key (promises ?s ! p) = p_key (promises ?s ! q) \<longrightarrow> p = q)"
      using o [of p] o [of q] by auto
  qed
  have E: "p < length (promises ?s) \<and> stage (promises ?s ! p) = AwaitFetch \<longrightarrow>
          map_get (loading (on_fetch_done p outcome e ?s)) (p_key (promises ?s ! p)) = None
          \<and> \<not> in_progress (on_fetch_done p outcome e ?s) p"
    by (simp add: on_fetch_done_drops_entry on_fetch_done_ends)
  have F: "p < length (promises ?s) \<and> stage (promises ?s ! p) = AwaitStore d \<longrightarrow>
          (getFromIndexedDB d (p_key (promises ?s ! p)) r ?s = None \<longrightarrow>
             loading (on_store_read p r ?s) = loading ?s \<and> in_progress (on_store_read p r ?s) p)
          \<and> (getFromIndexedDB d (p_key (promises ?s ! p)) r ?s \<noteq> None \<longrightarrow>
             map_get (loading (on_store_read p r ?s)) (p_key (promises ?s ! p)) = None
             \<and> \<not> in_progress (on_store_read p r ?s) p)"
    using on_store_read_goes_on [of p ?s d r] on_store_read_ends [of p ?s d r] by blast
  let ?k' = "convert_string api (p_url (promises ?s ! p))"
  let ?n = "length (promises ?s)"
  let ?s' = "on_timer api p ?s"
  have G: "p < length (promises ?s) \<and> stage (promises ?s ! p) = AwaitTimer dl \<longrightarrow>
            (map_get (loading ?s) ?k' = None \<and> map_get (memoryCache (mem ?s)) ?k' = None \<longrightarrow>
                 map_get (loading ?s') ?k' = Some ?n \<and> in_progress ?s' ?n
                 \<and> p_attempt (promises ?s' ! ?n) = p_attempt (promises ?s ! p) + 1
                 \<and> reactions (promises ?s' ! ?n) = [p])
            \<and> (map_get (loading ?s) ?k' = Some c \<longrightarrow>
                 loading ?s' = loading ?s \<and> length (promises ?s') = ?n \<and> fetches ?s' = fetches ?s
                 \<and> reactions (promises ?s' ! c) = reactions (promises ?s ! c) @ [p])
            \<and> (map_get (loading ?s) ?k' = None \<and> map_get (memoryCache (mem ?s)) ?k' = Some h
                \<and> status (promises ?s ! p) = Pending \<longrightarrow>
                 loading ?s' = loading ?s \<and> fetches ?s' = fetches ?s
                 \<and> status (promises ?s' ! p) = Fulfilled h)"
  proof (intro impI, elim conjE)
    assume p: "p < length (promises ?s)" and t: "stage (promises ?s ! p) = AwaitTimer dl"
    have l: "length (set_stage p Idle (promises ?s)) = ?n" by (simp add: set_stage_def)
    have G1: "map_get (loading ?s) ?k' = None \<and> map_get (memoryCache (mem ?s)) ?k' = None \<longrightarrow>
                 map_get (loading ?s') ?k' = Some ?n \<and> in_progress ?s' ?n
                 \<and> p_attempt (promises ?s' ! ?n) = p_attempt (promises ?s ! p) + 1
                 \<and> reactions (promises ?s' ! ?n) = [p]"
    proof (intro impI, elim conjE)
      assume n: "map_get (loading ?s) ?k' = None" "map_get (memoryCache (mem ?s)) ?k' = None"
      show "map_get (loading ?s') ?k' = Some ?n \<and> in_progress ?s' ?n
                 \<and> p_attempt (promises ?s' ! ?n) = p_attempt (promises ?s ! p) + 1
                 \<and> reactions (promises ?s' ! ?n) = [p]"
        unfolding on_timer_starts [OF p t n]
        by (simp add: map_get_set_same in_progress_def awaiting_def nth_append l)
    qed
    have G2: "map_get (loading ?s) ?k' = Some c \<longrightarrow>
                 loading ?s' = loading ?s \<and> length (promises ?s') = ?n \<and> fetches ?s' = fetches ?s
                 \<and> reactions (promises ?s' ! c) = reactions (promises ?s ! c) @ [p]"
    proof
      assume g: "map_get (loading ?s) ?k' = Some c"
      have i: "in_progress ?s c" using live_entry [OF lv g] by simp
      then have c: "c < ?n" by (simp add: in_progress_def)
      have s: "status (promises ?s ! c) = Pending" by (rule attempt_pending [OF pd i])
      have r: "reactions (set_stage p Idle (promises ?s) ! c) = reactions (promises ?s ! c)"
        using c by (cases "c = p") (simp_all add: set_stage_def)
      show "loading ?s' = loading ?s \<and> length (promises ?s') = ?n \<and> fetches ?s' = fetches ?s
                 \<and> reactions (promises ?s' ! c) = reactions (promises ?s ! c) @ [p]"
        unfolding on_timer_joins [OF p t g c s] using c by (simp add: l r)
    qed
    have G3: "map_get (loading ?s) ?k' = None \<and> map_get (memoryCache (mem ?s)) ?k' = Some h
                \<and> status (promises ?s ! p) = Pending \<longrightarrow>
                 loading ?s' = loading ?s \<and> fetches ?s' = fetches ?s
                 \<and> status (promises ?s' ! p) = Fulfilled h"
      using on_timer_cached [OF p t, of api h] by blast
    show "(map_get (loading ?s) ?k' = None \<and> map_get (memoryCache (mem ?s)) ?k' = None \<longrightarrow>
                 map_get (loading ?s') ?k' = Some ?n \<and> in_progress ?s' ?n
                 \<and> p_attempt (promises ?s' ! ?n) = p_attempt (promises ?s ! p) + 1
                 \<and> reactions (promises ?s' ! ?n) = [p])
            \<and> (map_get (loading ?s) ?k' = Some c \<longrightarrow>
                 loading ?s' = loading ?s \<and> length (promises ?s') = ?n \<and> fetches ?s' = fetches ?s
                 \<and> reactions (promises ?s' ! c) = reactions (promises ?s ! c) @ [p])
            \<and> (map_get (loading ?s) ?k' = None \<and> map_get (memoryCache (mem ?s)) ?k' = Some h
                \<and> status (promises ?s ! p) = Pending \<longrightarrow>
                 loading ?s' = loading ?s \<and> fetches ?s' = fetches ?s
                 \<and> status (promises ?s' ! p) = Fulfilled h)"
      using G1 G2 G3 by blast
  qed
  have H: "loading (snd (clearCache ok ?s)) = []"
    by (simp add: clearCache_def Let_def)
  show ?thesis
    unfolding Let_def by (intro conjI Z A B C E F G H)
qed

text \<open>Sample states of the loader, as values.\<close>

lemmas load_eval = run_def loadImage_def on_store_read_def on_fetch_done_def getFromIndexedDB_def
  getFromMemoryCache_def set_stage_def init_loader_def empty_mem_def map_get_def map_has_def
  map_delete_def response_blob_def startsWith_def cache_blob_def storeInIndexedDB_def
  storeInMemoryCache_def evict_noop MEMORY_CACHE_MAX_def clearCache_def CACHE_DURATION_def
  sample_env_def Let_def

lemma loading_value:
  "run sample_api [Load sample_url] init_loader = init_loader
     \<lparr>loading := [(sample_key, 0)],
      promises := [\<lparr>status = Pending, reactions = [], p_url = sample_url, p_key = sample_key,
                    p_attempt = 0, stage = AwaitStore False\<rparr>]\<rparr>"
  by (simp add: load_eval sample_key_def)

lemma cleared_value:
  "cleared_loader = init_loader
     \<lparr>loading := [(sample_key, 1)],
      promises := [\<lparr>status = Pending, reactions = [], p_url = sample_url, p_key = sample_key,
                    p_attempt = 0, stage = AwaitStore False\<rparr>,
                   \<lparr>status = Pending, reactions = [], p_url = sample_url, p_key = sample_key,
                    p_attempt = 0, stage = AwaitStore False\<rparr>]\<rparr>"
  by (simp add: cleared_loader_def load_eval sample_key_def)

lemma rejoined_value:
  "rejoined_loader = init_loader
     \<lparr>loading := [(sample_key, 1)],
      promises := [\<lparr>status = Pending, reactions = [], p_url = sample_url, p_key = sample_key,
                    p_attempt = 0, stage = AwaitTimer 1150\<rparr>,
                   \<lparr>status = Pending, reactions = [], p_url = sample_url, p_key = sample_key,
                    p_attempt = 0, stage = AwaitStore False\<rparr>],
      fetches := [sample_key]\<rparr>"
  by (simp add: rejoined_loader_def backoff_value load_eval sample_key_def)

lemma recached_value:
  "recached_loader = init_loader
     \<lparr>mem := \<lparr>memoryCache = [(sample_key, 0)], effects = [Inserted sample_key 0]\<rparr>,
      promises := [\<lparr>status = Pending, reactions = [], p_url = sample_url, p_key = sample_key,
                    p_attempt = 0, stage = AwaitTimer 1150\<rparr>,
                   \<lparr>status = Fulfilled 0, reactions = [], p_url = sample_url, p_key = sample_key,
                    p_attempt = 0, stage = Idle\<rparr>],
      objectUrls := [7],
      fetches := [sample_key, sample_key]\<rparr>"
  by (simp add: recached_loader_def rejoined_value load_eval)

lemma restocked_value:
  "restocked_loader = init_loader
     \<lparr>mem := \<lparr>memoryCache = [], effects = [Inserted sample_key 0, Revoked 0]\<rparr>,
      loading := [(sample_key, 1)],
      db := True,
      store := [(sample_key, (7, 1000))],
      promises := [\<lparr>status = Fulfilled 0, reactions = [], p_url = sample_url, p_key = sample_key,
                    p_attempt = 0, stage = Idle\<rparr>,
                   \<lparr>status = Pending, reactions = [], p_url = sample_url, p_key = sample_key,
                    p_attempt = 0, stage = AwaitStore True\<rparr>],
      objectUrls := [7],
      fetches := [sample_key]\<rparr>"
  by (simp add: restocked_loader_def restocked_events_def load_eval sample_key_def)

lemma sample_runs:
  "run sample_api [ClearCache True, Load sample_url, StoreRead 0 ReadError] init_loader
     = fetching_loader"
  "run sample_api [] init_loader = init_loader"
  "run sample_api [Load sample_url, StoreRead 0 ReadError,
                   FetchDone 0 (FetchRejects ''offline'') sample_env] init_loader
     = backoff_loader"
  "run sample_api [Load sample_url, StoreRead 0 ReadError,
                   FetchDone 0 (FetchRejects ''offline'') sample_env, Load sample_url] init_loader
     = rejoined_loader"
  "run sample_api [Load sample_url, StoreRead 0 ReadError,
                   FetchDone 0 (FetchRejects ''offline'') sample_env, Load sample_url,
                   StoreRead 1 ReadError,
                   FetchDone 1 (Response 200 (BlobOf 7 ''image/png'')) sample_env] init_loader
     = recached_loader"
proof -
  have c: "snd (clearCache True init_loader) = init_loader"
    by (simp add: clearCache_def init_loader_def empty_mem_def)
  show "run sample_api [ClearCache True, Load sample_url, StoreRead 0 ReadError] init_loader
     = fetching_loader"
    by (simp add: fetching_loader_def run_def c)
  show "run sample_api [] init_loader = init_loader" by (simp add: run_def)
  show "run sample_api [Load sample_url, StoreRead 0 ReadError,
                   FetchDone 0 (FetchRejects ''offline'') sample_env] init_loader
     = backoff_loader"
    by (simp add: backoff_loader_def fetching_loader_def run_def)
  show "run sample_api [Load sample_url, StoreRead 0 ReadError,
                   FetchDone 0 (FetchRejects ''offline'') sample_env, Load sample_url] init_loader
     = rejoined_loader"
    by (simp add: rejoined_loader_def backoff_loader_def fetching_loader_def run_def)
  show "run sample_api [Load sample_url, StoreRead 0 ReadError,
                   FetchDone 0 (FetchRejects ''offline'') sample_env, Load sample_url,
                   StoreRead 1 ReadError,
                   FetchDone 1 (Response 200 (BlobOf 7 ''image/png'')) sample_env] init_loader
     = recached_loader"
    by (simp add: recached_loader_def rejoined_loader_def backoff_loader_def fetching_loader_def
        run_def)
qed

text \<open>
  During the delay before a retry the key has no in-flight entry although the promise
  handed to the first caller is still pending: a second \<^verbatim>\<open>loadImage\<close> of the same URL
  returns another promise and, the store missing again, fetches the URL a second time. And
  after \<^verbatim>\<open>clearCache\<close> has emptied the map under a running attempt, a second
  \<^verbatim>\<open>loadImage\<close> starts an attempt of its own: two attempts for the key are in progress
  together, and both fetch.
\<close>

theorem in_flight_entry_counterexample:
  "status (promises backoff_loader ! 0) = Pending
   \<and> stage (promises backoff_loader ! 0) = AwaitTimer 1150
   \<and> map_get (loading backoff_loader) sample_key = None
   \<and> fst (loadImage sample_api sample_url 0 backoff_loader) = 1
   \<and> fetches (run sample_api [Load sample_url, StoreRead 1 ReadError] backoff_loader)
       = [sample_key, sample_key]
   \<and> in_progress cleared_loader 0 \<and> in_progress cleared_loader 1
   \<and> p_key (promises cleared_loader ! 0) = sample_key
   \<and> p_key (promises cleared_loader ! 1) = sample_key
   \<and> map_get (loading cleared_loader) sample_key = Some 1
   \<and> fetches (run sample_api [StoreRead 0 ReadError, StoreRead 1 ReadError] cleared_loader)
       = [sample_key, sample_key]"
  by (simp add: backoff_value cleared_value run_def loadImage_def on_store_read_def
      getFromIndexedDB_def getFromMemoryCache_def set_stage_def init_loader_def empty_mem_def
      map_get_def map_has_def in_progress_def awaiting_def sample_key_def Let_def)

theorem in_flight_per_attempt_witness:
  "quiet_clears sample_api [ClearCache True, Load sample_url, StoreRead 0 ReadError] init_loader
   \<and> distinct (map fst (loading fetching_loader))
   \<and> map_get (loading fetching_loader) sample_key = Some 0
   \<and> loadImage sample_api sample_url 0 fetching_loader = (0, fetching_loader)
   \<and> in_progress fetching_loader 0
   \<and> status (promises fetching_loader ! 0) = Pending
   \<and> p_key (promises fetching_loader ! 0) = sample_key
   \<and> map_get (loading fetching_loader) (p_key (promises fetching_loader ! 0)) = Some 0
   \<and> stage (promises fetching_loader ! 0) = AwaitFetch
   \<and> map_get (loading (on_fetch_done 0 (FetchRejects ''offline'') sample_env fetching_loader))
        sample_key = None
   \<and> \<not> in_progress (on_fetch_done 0 (FetchRejects ''offline'') sample_env fetching_loader) 0
   \<and> loading (snd (clearCache True fetching_loader)) = []
   \<and> map_get (loading init_loader) sample_key = None
   \<and> map_get (memoryCache (mem init_loader)) sample_key = None
   \<and> map_get (loading (snd (loadImage sample_api sample_url 0 init_loader))) sample_key = Some 0
   \<and> in_progress (snd (loadImage sample_api sample_url 0 init_loader)) 0
   \<and> stage (promises (run sample_api [Load sample_url] init_loader) ! 0) = AwaitStore False
   \<and> getFromIndexedDB False sample_key ReadError (run sample_api [Load sample_url] init_loader)
       = None
   \<and> loading (on_store_read 0 ReadError (run sample_api [Load sample_url] init_loader))
       = [(sample_key, 0)]
   \<and> in_progress (on_store_read 0 ReadError (run sample_api [Load sample_url] init_loader)) 0
   \<and> quiet_clears sample_api restocked_events init_loader
   \<and> stage (promises restocked_loader ! 1) = AwaitStore True
   \<and> getFromIndexedDB True sample_key (ReadSuccess 2000) restocked_loader = Some 7
   \<and> map_get (loading (on_store_read 1 (ReadSuccess 2000) restocked_loader)) sample_key = None
   \<and> \<not> in_progress (on_store_read 1 (ReadSuccess 2000) restocked_loader) 1
   \<and> stage (promises backoff_loader ! 0) = AwaitTimer 1150
   \<and> map_get (loading backoff_loader) sample_key = None
   \<and> map_get (memoryCache (mem backoff_loader)) sample_key = None
   \<and> map_get (loading (on_timer sample_api 0 backoff_loader)) sample_key = Some 1
   \<and> in_progress (on_timer sample_api 0 backoff_loader) 1
   \<and> p_attempt (promises (on_timer sample_api 0 backoff_loader) ! 1) = 1
   \<and> reactions (promises (on_timer sample_api 0 backoff_loader) ! 1) = [0]
   \<and> stage (promises rejoined_loader ! 0) = AwaitTimer 1150
   \<and> map_get (loading rejoined_loader) sample_key = Some 1
   \<and> loading (on_timer sample_api 0 rejoined_loader) = [(sample_key, 1)]
   \<and> length (promises (on_timer sample_api 0 rejoined_loader)) = 2
   \<and> fetches (on_timer sample_api 0 rejoined_loader) = [sample_key]
   \<and> reactions (promises (on_timer sample_api 0 rejoined_loader) ! 1) = [0]
   \<and> stage (promises recached_loader ! 0) = AwaitTimer 1150
   \<and> map_get (loading recached_loader) sample_key = None
   \<and> map_get (memoryCache (mem recached_loader)) sample_key = Some 0
   \<and> status (promises recached_loader ! 0) = Pending
   \<and> status (promises (on_timer sample_api 0 recached_loader) ! 0) = Fulfilled 0"
proof -
  note ev = init_loader_def empty_mem_def map_get_def in_progress_def awaiting_def
    getFromIndexedDB_def CACHE_DURATION_def
  have k: "convert_string sample_api sample_url = sample_key" by (simp add: sample_key_def)
  have q1: "quiet_clears sample_api [ClearCache True, Load sample_url, StoreRead 0 ReadError]
              init_loader"
    by (simp add: init_loader_def awaiting_def)
  have a: "distinct (map fst (loading fetching_loader))
     \<and> map_get (loading fetching_loader) sample_key = Some 0
     \<and> loadImage sample_api sample_url 0 fetching_loader = (0, fetching_loader)
     \<and> in_progress fetching_loader 0
     \<and> status (promises fetching_loader ! 0) = Pending
     \<and> p_key (promises fetching_loader ! 0) = sample_key
     \<and> map_get (loading fetching_loader) (p_key (promises fetching_loader ! 0)) = Some 0
     \<and> stage (promises fetching_loader ! 0) = AwaitFetch
     \<and> map_get (loading (on_fetch_done 0 (FetchRejects ''offline'') sample_env fetching_loader))
          sample_key = None
     \<and> \<not> in_progress (on_fetch_done 0 (FetchRejects ''offline'') sample_env fetching_loader) 0
     \<and> loading (snd (clearCache True fetching_loader)) = []"
    using in_flight_per_attempt [where api = sample_api
        and evs = "[ClearCache True, Load sample_url, StoreRead 0 ReadError]"
        and url = sample_url and p = 0 and q = 0 and k = 0
        and outcome = "FetchRejects ''offline''" and e = sample_env and ok = True] q1
    unfolding sample_runs k Let_def
    by (simp add: fetching_value ev)
  have b: "map_get (loading init_loader) sample_key = None
     \<and> map_get (memoryCache (mem init_loader)) sample_key = None
     \<and> map_get (loading (snd (loadImage sample_api sample_url 0 init_loader))) sample_key = Some 0
     \<and> in_progress (snd (loadImage sample_api sample_url 0 init_loader)) 0"
    using in_flight_per_attempt [where api = sample_api and evs = "[]"
        and url = sample_url and p = 0 and k = 0]
    unfolding sample_runs k Let_def
    by (simp add: ev)
  have c: "stage (promises (run sample_api [Load sample_url] init_loader) ! 0) = AwaitStore False
     \<and> getFromIndexedDB False sample_key ReadError (run sample_api [Load sample_url] init_loader)
         = None
     \<and> loading (on_store_read 0 ReadError (run sample_api [Load sample_url] init_loader))
         = [(sample_key, 0)]
     \<and> in_progress (on_store_read 0 ReadError (run sample_api [Load sample_url] init_loader)) 0"
    using in_flight_per_attempt [where api = sample_api and evs = "[Load sample_url]"
        and url = sample_url and p = 0 and d = False and r = ReadError]
    unfolding k Let_def loading_value
    by (simp add: ev)
  have q2: "quiet_clears sample_api restocked_events init_loader"
    by (simp add: restocked_events_def load_eval awaiting_def sample_key_def)
  have d: "stage (promises restocked_loader ! 1) = AwaitStore True
     \<and> getFromIndexedDB True sample_key (ReadSuccess 2000) restocked_loader = Some 7
     \<and> map_get (loading (on_store_read 1 (ReadSuccess 2000) restocked_loader)) sample_key = None
     \<and> \<not> in_progress (on_store_read 1 (ReadSuccess 2000) restocked_loader) 1"
    using in_flight_per_attempt [where api = sample_api and evs = restocked_events
        and url = sample_url and p = 1 and d = True and r = "ReadSuccess 2000"]
    unfolding restocked_loader_def [symmetric] k Let_def
    by (simp add: restocked_value ev)
  have e: "stage (promises backoff_loader ! 0) = AwaitTimer 1150
     \<and> map_get (loading backoff_loader) sample_key = None
     \<and> map_get (memoryCache (mem backoff_loader)) sample_key = None
     \<and> map_get (loading (on_timer sample_api 0 backoff_loader)) sample_key = Some 1
     \<and> in_progress (on_timer sample_api 0 backoff_loader) 1
     \<and> p_attempt (promises (on_timer sample_api 0 backoff_loader) ! 1) = 1
     \<and> reactions (promises (on_timer sample_api 0 backoff_loader) ! 1) = [0]"
    using in_flight_per_attempt [where api = sample_api
        and evs = "[Load sample_url, StoreRead 0 ReadError,
                    FetchDone 0 (FetchRejects ''offline'') sample_env]"
        and url = sample_url and p = 0 and dl = 1150]
    unfolding sample_runs Let_def
    by (simp add: backoff_value ev k)
  have f: "stage (promises rejoined_loader ! 0) = AwaitTimer 1150
     \<and> map_get (loading rejoined_loader) sample_key = Some 1
     \<and> loading (on_timer sample_api 0 rejoined_loader) = [(sample_key, 1)]
     \<and> length (promises (on_timer sample_api 0 rejoined_loader)) = 2
     \<and> fetches (on_timer sample_api 0 rejoined_loader) = [sample_key]
     \<and> reactions (promises (on_timer sample_api 0 rejoined_loader) ! 1) = [0]"
    using in_flight_per_attempt [where api = sample_api
        and evs = "[Load sample_url, StoreRead 0 ReadError,
                    FetchDone 0 (FetchRejects ''offline'') sample_env, Load sample_url]"
        and url = sample_url and p = 0 and dl = 1150 and c = 1]
    unfolding sample_runs Let_def
    by (simp add: rejoined_value ev k)
  have g: "stage (promises recached_loader ! 0) = AwaitTimer 1150
     \<and> map_get (loading recached_loader) sample_key = None
     \<and> map_get (memoryCache (mem recached_loader)) sample_key = Some 0
     \<and> status (promises recached_loader ! 0) = Pending
     \<and> status (promises (on_timer sample_api 0 recached_loader) ! 0) = Fulfilled 0"
    using in_flight_per_attempt [where api = sample_api
        and evs = "[Load sample_url, StoreRead 0 ReadError,
                    FetchDone 0 (FetchRejects ''offline'') sample_env, Load sample_url,
                    StoreRead 1 ReadError,
                    FetchDone 1 (Response 200 (BlobOf 7 ''image/png'')) sample_env]"
        and url = sample_url and p = 0 and dl = 1150 and h = 0]
    unfolding sample_runs Let_def
    by (simp add: recached_value ev k)
  show ?thesis using q1 a b c q2 d e f g by blast
qed

section \<open>Properties of the prefetcher\<close>




















section \<open>Properties of the normalizer on strings\<close>



lemma includes_tail: "str_includes cs p \<Longrightarrow> str_includes (c # cs) p"
  by simp





lemma startsWith_iff: "startsWith s p \<longleftrightarrow> (\<exists>t. s = p @ t)"
proof
  assume "startsWith s p"
  then have "s = p @ drop (length p) s"
    unfolding startsWith_def by (metis append_take_drop_id)
  then show "\<exists>t. s = p @ t" ..
next
  assume "\<exists>t. s = p @ t"
  then show "startsWith s p" by (auto simp: startsWith_def)
qed

lemma includes_iff: "str_includes s p \<longleftrightarrow> (\<exists>a b. s = a @ p @ b)"
proof (induction s)
  case Nil
  then show ?case by auto
next
  case (Cons c cs)
  show ?case
  proof
    assume "str_includes (c # cs) p"
    then consider "startsWith (c # cs) p" | "str_includes cs p" by auto
    then show "\<exists>a b. c # cs = a @ p @ b"
    proof cases
      case 1
      then obtain t where "c # cs = p @ t" by (auto simp: startsWith_iff)
      then have "c # cs = [] @ p @ t" by simp
      then show ?thesis by blast
    next
      case 2
      then obtain a b where "cs = a @ p @ b" using Cons.IH by auto
      then have "c # cs = (c # a) @ p @ b" by simp
      then show ?thesis by blast
    qed
  next
    assume "\<exists>a b. c # cs = a @ p @ b"
    then obtain a b where e: "c # cs = a @ p @ b" by auto
    show "str_includes (c # cs) p"
    proof (cases a)
      case Nil
      with e have "startsWith (c # cs) p" by (auto simp: startsWith_iff)
      then show ?thesis by simp
    next
      case (Cons x a')
      with e have "cs = a' @ p @ b" by simp
      then have "str_includes cs p" using Cons.IH by auto
      then show ?thesis by simp
    qed
  qed
qed

lemma includes_append_left: "str_includes a p \<Longrightarrow> str_includes (a @ b) p"
  unfolding includes_iff by (metis append.assoc)

lemma includes_append_right: "str_includes b p \<Longrightarrow> str_includes (a @ b) p"
  unfolding includes_iff by (metis append.assoc)

subsection \<open>Search parameters\<close>

lemma sp_delete_idem: "sp_delete d (sp_delete d ps) = sp_delete d ps"
  by (simp add: sp_delete_def)














































section \<open>Cache tiers\<close>


lemma evict_keys:
  "fst ` set (memoryCache (evict_oldest s)) \<subseteq> fst ` set (memoryCache s)"
proof (induction s rule: evict_oldest.induct)
  case (1 s)
  show ?case
  proof (cases "length (memoryCache s) \<ge> MEMORY_CACHE_MAX")
    case False
    then show ?thesis by (subst evict_oldest.simps) simp
  next
    case True
    show ?thesis
    proof (cases "memoryCache s")
      case Nil
      then show ?thesis by (subst evict_oldest.simps) simp
    next
      case (Cons e rest)
      obtain k v where e: "e = (k, v)" by (cases e)
      have m: "memoryCache s = (k, v) # rest" using Cons e by simp
      have "fst ` set (memoryCache (evict_oldest (s\<lparr>memoryCache := map_delete k (memoryCache s),
                  effects := effects s @ [Revoked v]\<rparr>)))
            \<subseteq> fst ` set (map_delete k (memoryCache s))"
        using "1.IH" [OF True m refl] by simp
      also have "\<dots> \<subseteq> fst ` set (memoryCache s)" by (auto simp: map_delete_def)
      finally show ?thesis using True m by (subst evict_oldest.simps) simp
    qed
  qed
qed

lemma store_keys:
  "map_has (memoryCache (storeInMemoryCache k h m)) k' \<Longrightarrow> k' = k \<or> map_has (memoryCache m) k'"
  using evict_keys [of m]
  by (auto simp: storeInMemoryCache_def Let_def map_has_def map_set_keys)

lemma get_keys:
  "map_has (memoryCache (snd (getFromMemoryCache k m))) k' \<longleftrightarrow> map_has (memoryCache m) k'"
  by (auto simp: getFromMemoryCache_def map_has_def map_set_keys map_delete_keys
      split: option.splits)

lemma map_get_delete_none: "map_get l k = None \<Longrightarrow> map_get (map_delete k' l) k = None"
  by (cases "k = k'") (simp_all add: map_get_delete_same map_get_delete_other)

lemma loadImage_exclusive:
  assumes "exclusive s"
  shows "exclusive (snd (loadImage api url k s))"
proof (cases "map_get (loading s) (convert_string api url)")
  case (Some p)
  then show ?thesis using assms by (simp add: loadImage_dedup)
next
  case None
  show ?thesis
  proof (cases "map_get (memoryCache (mem s)) (convert_string api url)")
    case (Some h)
    have "map_has (memoryCache (mem s)) (convert_string api url)"
      using Some by (simp add: map_has_get)
    then have "convert_string api url \<in> fst ` set (memoryCache (mem s))"
      by (simp add: map_has_def)
    then have "map_has (map_delete (convert_string api url) (memoryCache (mem s))
                     @ [(convert_string api url, h)]) k' \<Longrightarrow> map_has (memoryCache (mem s)) k'" for k'
      by (auto simp: map_has_def map_delete_keys)
    then show ?thesis
      using assms by (auto simp: loadImage_memory_hit [OF None Some] exclusive_def)
  next
    case n: None
    have "map_get (map_set (convert_string api url) (length (promises s)) (loading s)) k' = None"
      if "map_has (memoryCache (mem s)) k'" for k'
    proof -
      from that n have "k' \<noteq> convert_string api url" by (auto simp: map_has_get)
      moreover from that assms have "map_get (loading s) k' = None" by (simp add: exclusive_def)
      ultimately show ?thesis by (simp add: map_get_set_other)
    qed
    then show ?thesis
      by (simp add: loadImage_start [OF None n] exclusive_def)
  qed
qed

lemma cache_blob_exclusive:
  assumes "exclusive s" "loading s' = map_delete k (loading s)"
    "mem s' = storeInMemoryCache k h (mem s)"
  shows "exclusive s'"
  unfolding exclusive_def
proof (intro allI impI)
  fix k' assume "map_has (memoryCache (mem s')) k'"
  then have "k' = k \<or> map_has (memoryCache (mem s)) k'"
    using assms(3) store_keys by simp
  then show "map_get (loading s') k' = None"
    using assms(1,2) by (auto simp: exclusive_def map_get_delete_same map_get_delete_none)
qed

lemma shrink_exclusive:
  assumes "exclusive s" "loading s' = map_delete k (loading s)" "mem s' = mem s"
  shows "exclusive s'"
  using assms by (simp add: exclusive_def map_get_delete_none)

lemma same_exclusive:
  assumes "exclusive s" "loading s' = loading s" "mem s' = mem s"
  shows "exclusive s'"
  using assms by (simp add: exclusive_def)

lemma on_store_read_exclusive:
  assumes "exclusive s"
  shows "exclusive (on_store_read p outcome s)"
proof (cases "p < length (promises s)")
  case False
  then show ?thesis using assms by (simp add: on_store_read_def)
next
  case True
  show ?thesis
  proof (cases "stage (promises s ! p)")
    case (AwaitStore d)
    show ?thesis
    proof (cases "getFromIndexedDB d (p_key (promises s ! p)) outcome s")
      case None
      show ?thesis
        by (rule same_exclusive [OF assms])
           (simp_all add: on_store_read_def True AwaitStore None)
    next
      case (Some b)
      show ?thesis
        by (rule cache_blob_exclusive [OF assms, where k = "p_key (promises s ! p)"
              and h = "length (objectUrls s)"])
           (simp_all add: on_store_read_def True AwaitStore Some cache_blob_def Let_def
              del: settle.simps)
    qed
  qed (use assms True in \<open>simp_all add: on_store_read_def\<close>)
qed

lemma on_fetch_done_exclusive:
  assumes "exclusive s"
  shows "exclusive (on_fetch_done p outcome e s)"
proof (cases "p < length (promises s)")
  case False
  then show ?thesis using assms by (simp add: on_fetch_done_def)
next
  case True
  show ?thesis
  proof (cases "stage (promises s ! p)")
    case AwaitFetch
    show ?thesis
    proof (cases "response_blob outcome")
      case (Inr b)
      show ?thesis
        by (rule cache_blob_exclusive [OF assms, where k = "p_key (promises s ! p)"
              and h = "length (objectUrls s)"])
           (simp_all add: on_fetch_done_def True AwaitFetch Inr cache_blob_def
              storeInIndexedDB_def Let_def del: settle.simps)
    next
      case (Inl err)
      show ?thesis
      proof (cases "p_attempt (promises s ! p) < MAX_RETRIES")
        case r: True
        show ?thesis
          by (rule shrink_exclusive [OF assms, where k = "p_key (promises s ! p)"])
             (simp_all add: on_fetch_done_retry [OF True AwaitFetch Inl r])
      next
        case f: False
        show ?thesis
          by (rule shrink_exclusive [OF assms, where k = "p_key (promises s ! p)"])
             (simp_all add: on_fetch_done_final [OF True AwaitFetch Inl f] del: settle.simps)
      qed
    qed
  qed (use assms True in \<open>simp_all add: on_fetch_done_def\<close>)
qed

lemma on_timer_exclusive:
  assumes "exclusive s"
  shows "exclusive (on_timer api p s)"
proof (cases "p < length (promises s)")
  case False
  then show ?thesis using assms by (simp add: on_timer_def)
next
  case True
  show ?thesis
  proof (cases "stage (promises s ! p)")
    case (AwaitTimer d)
    let ?s1 = "s\<lparr>promises := set_stage p Idle (promises s)\<rparr>"
    have "exclusive ?s1" using assms by (simp add: exclusive_def)
    then have "exclusive (snd (loadImage api (p_url (promises s ! p))
                 (p_attempt (promises s ! p) + 1) ?s1))"
      by (rule loadImage_exclusive)
    then show ?thesis
      by (simp add: on_timer_fire [OF True AwaitTimer] Let_def exclusive_def)
  qed (use assms True in \<open>simp_all add: on_timer_def\<close>)
qed

lemma prefetchBatch_exclusive:
  "exclusive s \<Longrightarrow> exclusive (snd (prefetchBatch api batch s))"
proof (induction batch arbitrary: s)
  case Nil
  then show ?case by simp
next
  case (Cons url batch)
  obtain p s1 where l: "loadImage api url 0 s = (p, s1)" by (cases "loadImage api url 0 s")
  obtain ps s2 where r: "prefetchBatch api batch s1 = (ps, s2)"
    by (cases "prefetchBatch api batch s1")
  have "exclusive s1" using loadImage_exclusive [OF Cons.prems, of api url 0] l by simp
  then have "exclusive s2" using Cons.IH [of s1] r by simp
  then show ?case by (simp add: l r)
qed

lemma step_exclusive: "exclusive s \<Longrightarrow> exclusive (step api ev s)"
proof (cases ev)
  case (InitDone outcome)
  assume "exclusive s"
  then show ?thesis using InitDone by (cases outcome) (simp_all add: exclusive_def)
next
  case (Cleanup t ok)
  assume "exclusive s"
  then show ?thesis using Cleanup by (simp add: exclusive_def cleanupIndexedDB_def)
next
  case (Retry url)
  assume "exclusive s"
  then have "exclusive (s\<lparr>failed := map_delete url (failed s)\<rparr>)" by (simp add: exclusive_def)
  then show ?thesis unfolding Retry step.simps retryImage_def by (rule loadImage_exclusive)
next
  case (ClearCache ok)
  then show ?thesis by (simp add: exclusive_def clearCache_def map_get_def Let_def)
qed (simp_all add: loadImage_exclusive on_store_read_exclusive on_fetch_done_exclusive
       on_timer_exclusive prefetchBatch_exclusive)

lemma run_exclusive: "exclusive s \<Longrightarrow> exclusive (run api evs s)"
  unfolding run_def by (induction evs arbitrary: s) (simp_all add: step_exclusive)

lemma init_exclusive: "exclusive init_loader"
  by (simp add: exclusive_def init_loader_def empty_mem_def map_has_def)

lemma cached_not_loading:
  "map_get (memoryCache (mem (run api evs init_loader))) k = Some h \<Longrightarrow>
   map_get (loading (run api evs init_loader)) k = None"
  using run_exclusive [OF init_exclusive, of api evs]
  by (simp add: exclusive_def map_has_get)



text \<open>
  Claim C7. In every state the loader reaches, a key in the memory cache has no in-flight
  entry, and \<^verbatim>\<open>loadImage\<close> of such a key returns a new promise already fulfilled with the
  cached handle; no executor runs, so the store is not read and nothing is fetched. In any
  state, for a key with neither an in-flight entry nor a cached handle whose record in the
  store is unexpired when the read completes, the load is fulfilled with a new object URL of
  the stored blob, the object URL is in the memory cache, and no fetch is issued.
\<close>

theorem tier_fallback_order:
  "(let s = run api evs init_loader
    in map_get (memoryCache (mem s)) (convert_string api url) = Some h \<longrightarrow>
       (let (p, s') = loadImage api url 0 s
        in p = length (promises s)
         \<and> promises s' = promises s @
              [\<lparr>status = Fulfilled h, reactions = [], p_url = url,
                p_key = convert_string api url, p_attempt = 0, stage = Idle\<rparr>]
         \<and> fetches s' = fetches s \<and> store s' = store s \<and> loading s' = loading s))
   \<and> (map_get (loading t) (convert_string api url) = None
        \<and> map_get (memoryCache (mem t)) (convert_string api url) = None \<and> db t
        \<and> map_get (store t) (convert_string api url) = Some (b, ts)
        \<and> t' - ts < CACHE_DURATION \<longrightarrow>
       (let s' = run api [Load url, StoreRead (length (promises t)) (ReadSuccess t')] t
        in promises s' = promises t @
              [\<lparr>status = Fulfilled (length (objectUrls t)), reactions = [], p_url = url,
                p_key = convert_string api url, p_attempt = 0, stage = Idle\<rparr>]
         \<and> objectUrls s' = objectUrls t @ [b]
         \<and> map_get (memoryCache (mem s')) (convert_string api url)
              = Some (length (objectUrls t))
         \<and> fetches s' = fetches t \<and> store s' = store t
         \<and> map_get (loading s') (convert_string api url) = None))"
proof (intro conjI)
  let ?s = "run api evs init_loader"
  show "let s = run api evs init_loader
    in map_get (memoryCache (mem s)) (convert_string api url) = Some h \<longrightarrow>
       (let (p, s') = loadImage api url 0 s
        in p = length (promises s)
         \<and> promises s' = promises s @
              [\<lparr>status = Fulfilled h, reactions = [], p_url = url,
                p_key = convert_string api url, p_attempt = 0, stage = Idle\<rparr>]
         \<and> fetches s' = fetches s \<and> store s' = store s \<and> loading s' = loading s)"
    unfolding Let_def
  proof
    assume m: "map_get (memoryCache (mem ?s)) (convert_string api url) = Some h"
    have n: "map_get (loading ?s) (convert_string api url) = None"
      using m by (rule cached_not_loading)
    show "case loadImage api url 0 ?s of
          (p, s') \<Rightarrow> p = length (promises ?s)
           \<and> promises s' = promises ?s @
              [\<lparr>status = Fulfilled h, reactions = [], p_url = url,
                p_key = convert_string api url, p_attempt = 0, stage = Idle\<rparr>]
           \<and> fetches s' = fetches ?s \<and> store s' = store ?s \<and> loading s' = loading ?s"
      by (simp add: loadImage_memory_hit [OF n m])
  qed
next
  let ?k = "convert_string api url"
  show "map_get (loading t) ?k = None
        \<and> map_get (memoryCache (mem t)) ?k = None \<and> db t
        \<and> map_get (store t) ?k = Some (b, ts)
        \<and> t' - ts < CACHE_DURATION \<longrightarrow>
       (let s' = run api [Load url, StoreRead (length (promises t)) (ReadSuccess t')] t
        in promises s' = promises t @
              [\<lparr>status = Fulfilled (length (objectUrls t)), reactions = [], p_url = url,
                p_key = ?k, p_attempt = 0, stage = Idle\<rparr>]
         \<and> objectUrls s' = objectUrls t @ [b]
         \<and> map_get (memoryCache (mem s')) ?k = Some (length (objectUrls t))
         \<and> fetches s' = fetches t \<and> store s' = store t
         \<and> map_get (loading s') ?k = None)"
  proof (intro impI, elim conjE)
    assume l0: "map_get (loading t) ?k = None" and m: "map_get (memoryCache (mem t)) ?k = None"
      and d: "db t" and st: "map_get (store t) ?k = Some (b, ts)"
      and fresh: "t' - ts < CACHE_DURATION"
    have l: "loadImage api url 0 t = (length (promises t),
          t\<lparr>promises := promises t @
              [\<lparr>status = Pending, reactions = [], p_url = url,
                p_key = ?k, p_attempt = 0, stage = AwaitStore (db t)\<rparr>],
            loading := map_set ?k (length (promises t)) (loading t)\<rparr>)"
      by (rule loadImage_start [OF l0 m])
    show "let s' = run api [Load url, StoreRead (length (promises t)) (ReadSuccess t')] t
        in promises s' = promises t @
              [\<lparr>status = Fulfilled (length (objectUrls t)), reactions = [], p_url = url,
                p_key = ?k, p_attempt = 0, stage = Idle\<rparr>]
         \<and> objectUrls s' = objectUrls t @ [b]
         \<and> map_get (memoryCache (mem s')) ?k = Some (length (objectUrls t))
         \<and> fetches s' = fetches t \<and> store s' = store t
         \<and> map_get (loading s') ?k = None"
      unfolding Let_def run_def
      using d st fresh
      by (simp add: l on_store_read_def getFromIndexedDB_def cache_blob_def set_stage_def
          store_then_get map_get_delete_same Let_def)
  qed
qed

lemma warm_value:
  "warm_loader = init_loader
     \<lparr>mem := \<lparr>memoryCache = [(sample_key, 0)], effects = [Inserted sample_key 0]\<rparr>,
      promises := [\<lparr>status = Fulfilled 0, reactions = [], p_url = sample_url, p_key = sample_key,
                    p_attempt = 0, stage = Idle\<rparr>],
      objectUrls := [7],
      fetches := [sample_key]\<rparr>"
  by (simp add: warm_loader_def fetching_value run_def on_fetch_done_def response_blob_def
      startsWith_def storeInIndexedDB_def cache_blob_def storeInMemoryCache_def evict_noop
      MEMORY_CACHE_MAX_def set_stage_def init_loader_def empty_mem_def map_delete_def
      sample_env_def Let_def)

theorem tier_fallback_order_witness:
  "map_get (memoryCache (mem warm_loader)) (convert_string sample_api sample_url) = Some 0
   \<and> fst (loadImage sample_api sample_url 0 warm_loader) = 1
   \<and> status (promises (snd (loadImage sample_api sample_url 0 warm_loader)) ! 1) = Fulfilled 0
   \<and> fetches (snd (loadImage sample_api sample_url 0 warm_loader)) = fetches warm_loader
   \<and> map_get (loading stored_loader) (convert_string sample_api sample_url) = None
   \<and> map_get (memoryCache (mem stored_loader)) (convert_string sample_api sample_url) = None
   \<and> db stored_loader
   \<and> map_get (store stored_loader) (convert_string sample_api sample_url) = Some (7, 0)
   \<and> (1000::int) - 0 < CACHE_DURATION
   \<and> promises (run sample_api [Load sample_url, StoreRead 0 (ReadSuccess 1000)] stored_loader) =
        [\<lparr>status = Fulfilled 0, reactions = [], p_url = sample_url,
          p_key = convert_string sample_api sample_url, p_attempt = 0, stage = Idle\<rparr>]
   \<and> fetches (run sample_api [Load sample_url, StoreRead 0 (ReadSuccess 1000)] stored_loader) = []"
proof -
  have r: "run sample_api [Load sample_url, StoreRead 0 ReadError,
             FetchDone 0 (Response 200 (BlobOf 7 ''image/png'')) sample_env] init_loader
           = warm_loader"
    by (simp add: warm_loader_def fetching_loader_def run_def)
  have w: "map_get (memoryCache (mem warm_loader)) (convert_string sample_api sample_url) = Some 0"
    "length (promises warm_loader) = 1"
    by (simp_all add: warm_value init_loader_def map_get_def sample_key_def)
  have c: "case loadImage sample_api sample_url 0 warm_loader of
          (p, s') \<Rightarrow> p = length (promises warm_loader)
           \<and> promises s' = promises warm_loader @
              [\<lparr>status = Fulfilled 0, reactions = [], p_url = sample_url,
                p_key = convert_string sample_api sample_url, p_attempt = 0, stage = Idle\<rparr>]
           \<and> fetches s' = fetches warm_loader \<and> store s' = store warm_loader
           \<and> loading s' = loading warm_loader"
    using tier_fallback_order [where api = sample_api and url = sample_url and h = 0
        and evs = "[Load sample_url, StoreRead 0 ReadError,
             FetchDone 0 (Response 200 (BlobOf 7 ''image/png'')) sample_env]", THEN conjunct1]
      w(1)
    unfolding r Let_def by (rule mp)
  have a: "fst (loadImage sample_api sample_url 0 warm_loader) = 1
     \<and> status (promises (snd (loadImage sample_api sample_url 0 warm_loader)) ! 1) = Fulfilled 0
     \<and> fetches (snd (loadImage sample_api sample_url 0 warm_loader)) = fetches warm_loader"
    using c w(2) by (auto simp: nth_append split: prod.splits)
  have h: "map_get (loading stored_loader) (convert_string sample_api sample_url) = None"
    "map_get (memoryCache (mem stored_loader)) (convert_string sample_api sample_url) = None"
    "db stored_loader"
    "map_get (store stored_loader) (convert_string sample_api sample_url) = Some (7, 0)"
    "(1000::int) - 0 < CACHE_DURATION"
    "promises stored_loader = []" "objectUrls stored_loader = []" "fetches stored_loader = []"
    by (simp_all add: stored_loader_def init_loader_def empty_mem_def map_get_def sample_key_def
        CACHE_DURATION_def)
  have b: "promises (run sample_api [Load sample_url, StoreRead 0 (ReadSuccess 1000)] stored_loader) =
        [\<lparr>status = Fulfilled 0, reactions = [], p_url = sample_url,
          p_key = convert_string sample_api sample_url, p_attempt = 0, stage = Idle\<rparr>]
     \<and> fetches (run sample_api [Load sample_url, StoreRead 0 (ReadSuccess 1000)] stored_loader) = []"
    using tier_fallback_order [where api = sample_api and url = sample_url and t = stored_loader
        and b = 7 and ts = 0 and t' = 1000, THEN conjunct2] h
    unfolding Let_def by simp
  show ?thesis using w(1) a h(1-5) b by simp
qed

end
